theory Spec2Isabelle
  imports Complex_Main "HOL-Library.AList" "HOL-Library.List_Lexorder" "HOL-Library.Char_ord"
begin

section \<open>Data model\<close>

type_synonym path = string

text \<open>
  Modelled from the spec: the class \<open>Target\<close> is imported by the sources but not part of
  them.  A target is a named unit of work; the graph and the scheduler read its name and
  its flattened, ordered input and output paths.  The mutable field \<open>options\<close> lives in the
  scheduler's store (see \<open>target_options\<close> below), keyed by the target's name, because
  \<open>prepare_target_options\<close> assigns it in place while the graph keeps referring to the
  same object.
\<close>

record target =
  name :: string
  inputs :: "path list"
  outputs :: "path list"

text \<open>Modelled from the spec: \<open>is_source\<close> means no flattened inputs, \<open>is_sink\<close> no flattened outputs.\<close>

definition is_source :: "target \<Rightarrow> bool" where
  "is_source t = (inputs t = [])"

definition is_sink :: "target \<Rightarrow> bool" where
  "is_sink t = (outputs t = [])"

text \<open>Option values are scalars; Python's \<open>None\<close> is \<open>None\<close> of \<open>scalar option\<close>.\<close>

datatype scalar = IntV int | StrV string

type_synonym options = "string \<rightharpoonup> scalar option"

section \<open>Option normalisation\<close>

text \<open>
  \<open>Scheduler.prepare_target_options\<close>: the defaults updated with the target's options; then
  every key the backend does not know is deleted, and so is every key whose value is \<open>None\<close>.
  The function returns the dictionary that the source assigns to \<open>target.options\<close>.
\<close>

definition prepare_target_options :: "options \<Rightarrow> options \<Rightarrow> options" where
  "prepare_target_options option_defaults topts =
     (let new_options = option_defaults ++ topts
      in (\<lambda>option_name.
            case new_options option_name of
              None \<Rightarrow> None
            | Some option_value \<Rightarrow>
                if option_name \<notin> dom option_defaults then None
                else if option_value = None then None
                else Some option_value))"

section \<open>Errors and results\<close>

text \<open>
  The exceptions the modelled code can raise.  The three \<open>WorkflowError\<close>s of the source
  differ in their message only; each message names the objects kept here.  \<open>KeyError\<close>,
  \<open>TypeError\<close> and \<open>ValueError\<close> are the Python exceptions of a failed dictionary lookup,
  of an order comparison with \<open>None\<close>, and of \<open>max\<close>/\<open>min\<close> over nothing.
\<close>

datatype error =
    MultiProviderError path string target
  | CyclicDependencyError target
  | FileRequiredButNotProvidedError path target
  | KeyError
  | TypeError
  | ValueError

text \<open>
  A call either raises (\<open>Inl\<close>) or returns (\<open>Inr\<close>).  The recursive procedures
  (\<open>visitor\<close>, \<open>should_run\<close>, \<open>update_state\<close>, \<open>schedule\<close>) follow the dependencies of
  a target, so they take the depth of recursion they may use as first argument and
  return \<open>None\<close> when it is exhausted.
\<close>

section \<open>Graph\<close>

text \<open>
  The dictionaries of \<open>Graph\<close> are association lists in insertion order; a set that the
  code iterates over is the list of its elements in iteration order.
  \<open>dependencies\<close> is a \<open>defaultdict(set)\<close>: a target without entry has no dependencies.
\<close>

record graph =
  targets :: "target list"
  provides :: "(path \<times> target) list"
  dependencies :: "(target \<times> target list) list"
  dependents :: "(target \<times> target list) list"
  unresolved :: "path set"

definition lookup_default :: "('k \<times> 'v list) list \<Rightarrow> 'k \<Rightarrow> 'v list" where
  "lookup_default d k = (case map_of d k of None \<Rightarrow> [] | Some vs \<Rightarrow> vs)"

definition deps_of :: "graph \<Rightarrow> target \<Rightarrow> target list" where
  "deps_of g t = lookup_default (dependencies g) t"

text \<open>\<open>d[k].add(v)\<close> on a \<open>defaultdict(set)\<close>.\<close>

definition add_to :: "('k \<times> 'v list) list \<Rightarrow> 'k \<Rightarrow> 'v \<Rightarrow> ('k \<times> 'v list) list" where
  "add_to d k v =
     (case map_of d k of
        None \<Rightarrow> d @ [(k, [v])]
      | Some vs \<Rightarrow> if v \<in> set vs then d else AList.update k (vs @ [v]) d)"

subsection \<open>Cycle check\<close>

datatype colour = Fresh | Started | Done

type_synonym colouring = "target \<rightharpoonup> colour"

text \<open>The loop over the dependencies of \<open>node\<close> inside \<open>visitor\<close>.\<close>

fun visit_deps ::
  "(target \<Rightarrow> colouring \<Rightarrow> (error + colouring) option) \<Rightarrow> target \<Rightarrow> target list \<Rightarrow> colouring
     \<Rightarrow> (error + colouring) option" where
  "visit_deps visit node [] state = Some (Inr state)"
| "visit_deps visit node (dep # deps) state =
     (case state dep of
        None \<Rightarrow> Some (Inl KeyError)
      | Some Started \<Rightarrow> Some (Inl (CyclicDependencyError node))
      | Some Fresh \<Rightarrow>
          (case visit dep state of
             None \<Rightarrow> None
           | Some (Inl e) \<Rightarrow> Some (Inl e)
           | Some (Inr state') \<Rightarrow> visit_deps visit node deps state')
      | Some Done \<Rightarrow> visit_deps visit node deps state)"

primrec visitor :: "nat \<Rightarrow> graph \<Rightarrow> target \<Rightarrow> colouring \<Rightarrow> (error + colouring) option" where
  "visitor 0 g node state = None"
| "visitor (Suc k) g node state =
     (case visit_deps (visitor k g) node (deps_of g node) (state(node \<mapsto> Started)) of
        None \<Rightarrow> None
      | Some (Inl e) \<Rightarrow> Some (Inl e)
      | Some (Inr state') \<Rightarrow> Some (Inr (state'(node \<mapsto> Done))))"

text \<open>The loop \<open>for node in nodes: if state[node] == fresh: visitor(node)\<close>.\<close>

fun visit_nodes ::
  "(target \<Rightarrow> colouring \<Rightarrow> (error + colouring) option) \<Rightarrow> target list \<Rightarrow> colouring
     \<Rightarrow> (error + colouring) option" where
  "visit_nodes visit [] state = Some (Inr state)"
| "visit_nodes visit (node # nodes) state =
     (case state node of
        None \<Rightarrow> Some (Inl KeyError)
      | Some Fresh \<Rightarrow>
          (case visit node state of
             None \<Rightarrow> None
           | Some (Inl e) \<Rightarrow> Some (Inl e)
           | Some (Inr state') \<Rightarrow> visit_nodes visit nodes state')
      | Some _ \<Rightarrow> visit_nodes visit nodes state)"

definition initial_colouring :: "target list \<Rightarrow> colouring" where
  "initial_colouring nodes = map_of (map (\<lambda>n. (n, Fresh)) nodes)"

definition check_for_circular_dependencies_upto :: "nat \<Rightarrow> graph \<Rightarrow> (error + unit) option" where
  "check_for_circular_dependencies_upto k g =
     (let nodes = targets g;
          state = initial_colouring nodes
      in case visit_nodes (visitor k g) nodes state of
           None \<Rightarrow> None
         | Some (Inl e) \<Rightarrow> Some (Inl e)
         | Some (Inr _) \<Rightarrow> Some (Inr ()))"

text \<open>
  Every call of \<open>visitor\<close> colours a fresh node, so the recursion is never deeper than the
  number of nodes (lemma \<open>check_for_circular_dependencies_returns\<close> below).
\<close>

definition check_for_circular_dependencies :: "graph \<Rightarrow> (error + unit) option" where
  "check_for_circular_dependencies g =
     check_for_circular_dependencies_upto (Suc (length (targets g))) g"

text \<open>\<open>Graph.__init__\<close>: store the fields, then check for cycles.\<close>

definition Graph_init :: "graph \<Rightarrow> (error + graph) option" where
  "Graph_init g =
     (case check_for_circular_dependencies g of
        None \<Rightarrow> None
      | Some (Inl e) \<Rightarrow> Some (Inl e)
      | Some (Inr _) \<Rightarrow> Some (Inr g))"

subsection \<open>Construction from targets\<close>

text \<open>First pass of \<open>Graph.from_targets\<close>: who provides which path.\<close>

fun add_outputs :: "target \<Rightarrow> path list \<Rightarrow> (path \<times> target) list \<Rightarrow> error + (path \<times> target) list" where
  "add_outputs t [] prov = Inr prov"
| "add_outputs t (p # ps) prov =
     (case map_of prov p of
        Some u \<Rightarrow> Inl (MultiProviderError p (name u) t)
      | None \<Rightarrow> add_outputs t ps (prov @ [(p, t)]))"

fun build_provides :: "target list \<Rightarrow> (path \<times> target) list \<Rightarrow> error + (path \<times> target) list" where
  "build_provides [] prov = Inr prov"
| "build_provides (t # ts) prov =
     (case add_outputs t (outputs t) prov of
        Inl e \<Rightarrow> Inl e
      | Inr prov' \<Rightarrow> build_provides ts prov')"

text \<open>Second pass: dependencies and unresolved paths.\<close>

fun scan_inputs ::
  "(path \<times> target) list \<Rightarrow> target \<Rightarrow> path list
     \<Rightarrow> (target \<times> target list) list \<times> path set \<Rightarrow> (target \<times> target list) list \<times> path set" where
  "scan_inputs prov t [] acc = acc"
| "scan_inputs prov t (p # ps) (deps, unres) =
     (case map_of prov p of
        Some u \<Rightarrow> scan_inputs prov t ps (add_to deps t u, unres)
      | None \<Rightarrow> scan_inputs prov t ps (deps, insert p unres))"

fun build_dependencies ::
  "(path \<times> target) list \<Rightarrow> target list
     \<Rightarrow> (target \<times> target list) list \<times> path set \<Rightarrow> (target \<times> target list) list \<times> path set" where
  "build_dependencies prov [] acc = acc"
| "build_dependencies prov (t # ts) acc =
     build_dependencies prov ts (scan_inputs prov t (inputs t) acc)"

text \<open>Third pass: \<open>dependents\<close> inverts \<open>dependencies\<close>.\<close>

fun add_dependents ::
  "target \<Rightarrow> target list \<Rightarrow> (target \<times> target list) list \<Rightarrow> (target \<times> target list) list" where
  "add_dependents t [] dpts = dpts"
| "add_dependents t (dep # deps) dpts = add_dependents t deps (add_to dpts dep t)"

fun build_dependents ::
  "(target \<times> target list) list \<Rightarrow> (target \<times> target list) list \<Rightarrow> (target \<times> target list) list" where
  "build_dependents [] dpts = dpts"
| "build_dependents ((t, deps) # rest) dpts = build_dependents rest (add_dependents t deps dpts)"

text \<open>
  \<open>Graph.from_targets\<close>.  The argument is the list of values of the dictionary
  \<open>targets\<close> (name to target) in iteration order.
\<close>

definition from_targets :: "target list \<Rightarrow> (error + graph) option" where
  "from_targets ts =
     (case build_provides ts [] of
        Inl e \<Rightarrow> Some (Inl e)
      | Inr prov \<Rightarrow>
          (case build_dependencies prov ts ([], {}) of
             (deps, unres) \<Rightarrow>
               Graph_init \<lparr>targets = ts, provides = prov, dependencies = deps,
                           dependents = build_dependents deps [], unresolved = unres\<rparr>))"

section \<open>Staleness\<close>

text \<open>
  The file cache maps a path to its modification time, or to \<open>None\<close> when the file is
  missing; it probes a path once, so within a pass it is a function of the path.
\<close>

type_synonym file_cache = "path \<Rightarrow> real option"

text \<open>The loop over the dependencies at the head of \<open>should_run\<close>.\<close>

fun any_dep_should_run ::
  "(target \<Rightarrow> (error + bool) option) \<Rightarrow> target list \<Rightarrow> (error + bool) option" where
  "any_dep_should_run sr [] = Some (Inr False)"
| "any_dep_should_run sr (dep # deps) =
     (case sr dep of
        None \<Rightarrow> None
      | Some (Inl e) \<Rightarrow> Some (Inl e)
      | Some (Inr b) \<Rightarrow> if b then Some (Inr True) else any_dep_should_run sr deps)"

fun check_inputs :: "graph \<Rightarrow> file_cache \<Rightarrow> target \<Rightarrow> path list \<Rightarrow> error + unit" where
  "check_inputs g fc t [] = Inr ()"
| "check_inputs g fc t (p # ps) =
     (if p \<in> unresolved g \<and> fc p = None then Inl (FileRequiredButNotProvidedError p t)
      else check_inputs g fc t ps)"

text \<open>
  Python compares the pairs \<open>(timestamp, path)\<close> lexicographically: the first components
  are tested for equality, and only when they differ they are ordered, which raises
  \<open>TypeError\<close> when one of them is \<open>None\<close>.
\<close>

definition py_gt :: "real option \<Rightarrow> real option \<Rightarrow> error + bool" where
  "py_gt a b = (case (a, b) of (Some x, Some y) \<Rightarrow> Inr (x > y) | _ \<Rightarrow> Inl TypeError)"

definition pair_gt :: "real option \<times> path \<Rightarrow> real option \<times> path \<Rightarrow> error + bool" where
  "pair_gt x y = (if fst x = fst y then Inr (snd x > snd y) else py_gt (fst x) (fst y))"

fun max_from :: "real option \<times> path \<Rightarrow> (real option \<times> path) list \<Rightarrow> error + real option \<times> path" where
  "max_from m [] = Inr m"
| "max_from m (x # xs) =
     (case pair_gt x m of
        Inl e \<Rightarrow> Inl e
      | Inr b \<Rightarrow> if b then max_from x xs else max_from m xs)"

fun min_from :: "real option \<times> path \<Rightarrow> (real option \<times> path) list \<Rightarrow> error + real option \<times> path" where
  "min_from m [] = Inr m"
| "min_from m (x # xs) =
     (case pair_gt m x of
        Inl e \<Rightarrow> Inl e
      | Inr b \<Rightarrow> if b then min_from x xs else min_from m xs)"

definition py_max :: "(real option \<times> path) list \<Rightarrow> error + real option \<times> path" where
  "py_max xs = (case xs of [] \<Rightarrow> Inl ValueError | x # xs' \<Rightarrow> max_from x xs')"

definition py_min :: "(real option \<times> path) list \<Rightarrow> error + real option \<times> path" where
  "py_min xs = (case xs of [] \<Rightarrow> Inl ValueError | x # xs' \<Rightarrow> min_from x xs')"

text \<open>What \<open>should_run\<close> does after the loop over the dependencies has found none that runs.\<close>

definition compare_timestamps :: "file_cache \<Rightarrow> target \<Rightarrow> error + bool" where
  "compare_timestamps fc t =
     (case py_max (map (\<lambda>p. (fc p, p)) (inputs t)) of
        Inl e \<Rightarrow> Inl e
      | Inr (youngest_in_ts, youngest_in_path) \<Rightarrow>
          (case py_min (map (\<lambda>p. (fc p, p)) (outputs t)) of
             Inl e \<Rightarrow> Inl e
           | Inr (oldest_out_ts, oldest_out_path) \<Rightarrow> py_gt youngest_in_ts oldest_out_ts))"

definition should_run_self :: "graph \<Rightarrow> file_cache \<Rightarrow> target \<Rightarrow> error + bool" where
  "should_run_self g fc t =
     (case check_inputs g fc t (inputs t) of
        Inl e \<Rightarrow> Inl e
      | Inr _ \<Rightarrow>
          if is_sink t then Inr True
          else if list_ex (\<lambda>p. fc p = None) (outputs t) then Inr True
          else if is_source t then Inr False
          else compare_timestamps fc t)"

text \<open>
  \<open>Scheduler.should_run\<close>.  The decorator \<open>cache\<close> stores the value returned for a target;
  the function reads only the graph and the file cache, so the stored value is the value
  a second evaluation would return.
\<close>

primrec should_run :: "nat \<Rightarrow> graph \<Rightarrow> file_cache \<Rightarrow> target \<Rightarrow> (error + bool) option" where
  "should_run 0 g fc t = None"
| "should_run (Suc k) g fc t =
     (case any_dep_should_run (should_run k g fc) (deps_of g t) of
        None \<Rightarrow> None
      | Some (Inl e) \<Rightarrow> Some (Inl e)
      | Some (Inr b) \<Rightarrow> if b then Some (Inr True) else Some (should_run_self g fc t))"

section \<open>Persisted state and reported status\<close>

text \<open>
  Modelled from the spec: \<open>gwf.models\<close> (\<open>TargetMeta\<close>, \<open>get_target_meta\<close>) is imported by the
  sources but not part of them.  The state store maps the name of a target to its
  persisted state, a record that was never written being \<open>Unknown\<close> (it is created on
  first lookup); \<open>reset\<close> writes \<open>Unknown\<close>, \<open>submitted\<close> writes \<open>Submitted\<close>, and the
  predicates \<open>is_unknown\<close>, ... test the state.  The calls of the mutators are recorded
  as the source makes them: \<open>state.reset()\<close>, \<open>state.reset(autocommit=False)\<close>,
  \<open>state.submitted(autocommit=False)\<close> and \<open>state.commit()\<close>, each with the name of the
  target whose record it acts on.
\<close>

datatype target_state = Unknown | Submitted | Running | Completed | Failed | Cancelled | Killed

type_synonym state_db = "string \<Rightarrow> target_state"

datatype meta_call =
    Reset string
  | ResetNoCommit string
  | SubmittedNoCommit string
  | Commit string

definition is_unknown :: "target_state \<Rightarrow> bool" where "is_unknown st = (st = Unknown)"
definition is_submitted :: "target_state \<Rightarrow> bool" where "is_submitted st = (st = Submitted)"
definition is_running :: "target_state \<Rightarrow> bool" where "is_running st = (st = Running)"
definition is_completed :: "target_state \<Rightarrow> bool" where "is_completed st = (st = Completed)"
definition is_failed :: "target_state \<Rightarrow> bool" where "is_failed st = (st = Failed)"
definition is_cancelled :: "target_state \<Rightarrow> bool" where "is_cancelled st = (st = Cancelled)"
definition is_killed :: "target_state \<Rightarrow> bool" where "is_killed st = (st = Killed)"

datatype TargetStatus = SHOULDRUN | SUBMITTED | RUNNING | COMPLETED | FAILED | KILLED | CANCELLED

definition SHOULDRUN_STATES :: "TargetStatus set" where
  "SHOULDRUN_STATES = {FAILED, KILLED, CANCELLED, SHOULDRUN}"

section \<open>Scheduler\<close>

text \<open>
  What can be observed of a pass: each call of \<open>schedule\<close> (its first statement logs
  \<open>Scheduling target\<close>), each call of \<open>backend.submit\<close> with the target and the set of
  dependencies passed along, and in a dry run each \<open>Would submit target\<close>.
\<close>

datatype event = Scheduling target | Submit target "target set" | WouldSubmit target

text \<open>
  The scheduler: \<open>graph\<close>, \<open>dry_run\<close> and the file cache are fixed; \<open>option_defaults\<close> is
  \<open>backend.option_defaults\<close>; the pretend set, the state store, the mutator calls made on
  the records of the store, the options of the targets and the trace change as the pass
  proceeds.
\<close>

record scheduler =
  graph :: graph
  option_defaults :: options
  dry_run :: bool
  file_cache :: file_cache
  pretend_known :: "target set"
  state_db :: state_db
  meta_calls :: "meta_call list"
  target_options :: "string \<Rightarrow> options"
  trace :: "event list"

subsection \<open>update_state\<close>

text \<open>
  \<open>state\<close> is the handle fetched before the loop; \<open>state.reset()\<close> sets it to \<open>Unknown\<close> and
  writes that to the store.  \<open>update_state\<close> returns the store, the state of the handle and
  the mutator calls it made, in order.
\<close>

definition needs_reset :: "target_state \<Rightarrow> bool" where
  "needs_reset dep_state =
     (is_failed dep_state \<or> is_killed dep_state \<or> is_cancelled dep_state \<or> is_unknown dep_state)"

fun update_deps ::
  "(state_db \<Rightarrow> target \<Rightarrow> (state_db \<times> target_state \<times> meta_call list) option) \<Rightarrow> target
     \<Rightarrow> target list \<Rightarrow> state_db \<Rightarrow> target_state \<Rightarrow> meta_call list
     \<Rightarrow> (state_db \<times> target_state \<times> meta_call list) option" where
  "update_deps upd t [] db state calls = Some (db, state, calls)"
| "update_deps upd t (dep # deps) db state calls =
     (case upd db dep of
        None \<Rightarrow> None
      | Some (db', dep_state, dep_calls) \<Rightarrow>
          if needs_reset dep_state
          then update_deps upd t deps (db'(name t := Unknown)) Unknown
                 (calls @ dep_calls @ [Reset (name t)])
          else update_deps upd t deps db' state (calls @ dep_calls))"

primrec update_state ::
  "nat \<Rightarrow> graph \<Rightarrow> state_db \<Rightarrow> target \<Rightarrow> (state_db \<times> target_state \<times> meta_call list) option" where
  "update_state 0 g db t = None"
| "update_state (Suc k) g db t =
     update_deps (update_state k g) t (deps_of g t) db (db (name t)) []"

subsection \<open>status\<close>

text \<open>The chain of tests at the end of \<open>status\<close>; falling off its end returns \<open>None\<close>.\<close>

definition status_of :: "target_state \<Rightarrow> bool \<Rightarrow> TargetStatus option" where
  "status_of state run =
     (if is_unknown state then (if run then Some SHOULDRUN else Some COMPLETED)
      else if is_submitted state then Some SUBMITTED
      else if is_running state then Some RUNNING
      else if is_completed state then (if run then Some SHOULDRUN else Some COMPLETED)
      else if is_failed state then Some FAILED
      else if is_cancelled state then Some CANCELLED
      else if is_killed state then Some KILLED
      else None)"

definition status :: "nat \<Rightarrow> scheduler \<Rightarrow> target \<Rightarrow> (error + TargetStatus option \<times> scheduler) option" where
  "status k s t =
     (case update_state k (graph s) (state_db s) t of
        None \<Rightarrow> None
      | Some (db', state, calls) \<Rightarrow>
          (case should_run k (graph s) (file_cache s) t of
             None \<Rightarrow> None
           | Some (Inl e) \<Rightarrow> Some (Inl e)
           | Some (Inr b) \<Rightarrow>
               Some (Inr (status_of state b,
                          s\<lparr>state_db := db', meta_calls := meta_calls s @ calls\<rparr>))))"

text \<open>The table of the specification (section 4.5), row by row.\<close>

fun status_table :: "target_state \<Rightarrow> bool \<Rightarrow> TargetStatus" where
  "status_table Unknown True = SHOULDRUN"
| "status_table Unknown False = COMPLETED"
| "status_table Submitted _ = SUBMITTED"
| "status_table Running _ = RUNNING"
| "status_table Completed True = SHOULDRUN"
| "status_table Completed False = COMPLETED"
| "status_table Failed _ = FAILED"
| "status_table Cancelled _ = CANCELLED"
| "status_table Killed _ = KILLED"

subsection \<open>schedule\<close>

definition enter_schedule :: "scheduler \<Rightarrow> target \<Rightarrow> scheduler" where
  "enter_schedule s t =
     s\<lparr>trace := trace s @ [Scheduling t],
       target_options := (target_options s)
          (name t := prepare_target_options (option_defaults s) (target_options s (name t)))\<rparr>"

text \<open>The loop over the dependencies sorted by name; it collects \<open>submitted_deps\<close>.\<close>

fun schedule_deps ::
  "(scheduler \<Rightarrow> target \<Rightarrow> (error + bool \<times> scheduler) option) \<Rightarrow> target list \<Rightarrow> target set
     \<Rightarrow> scheduler \<Rightarrow> (error + target set \<times> scheduler) option" where
  "schedule_deps sch [] submitted_deps s = Some (Inr (submitted_deps, s))"
| "schedule_deps sch (dependency # rest) submitted_deps s =
     (case sch s dependency of
        None \<Rightarrow> None
      | Some (Inl e) \<Rightarrow> Some (Inl e)
      | Some (Inr (b, s')) \<Rightarrow>
          schedule_deps sch rest (if b then insert dependency submitted_deps else submitted_deps) s')"

text \<open>
  The condition \<open>submitted_deps or self.status(target) in Scheduler.SHOULDRUN_STATES\<close>:
  \<open>status\<close> is called only when no dependency was submitted.
\<close>

definition must_run :: "nat \<Rightarrow> scheduler \<Rightarrow> target \<Rightarrow> target set \<Rightarrow> (error + bool \<times> scheduler) option" where
  "must_run k s t submitted_deps =
     (if submitted_deps \<noteq> {} then Some (Inr (True, s))
      else (case status k s t of
              None \<Rightarrow> None
            | Some (Inl e) \<Rightarrow> Some (Inl e)
            | Some (Inr (st, s')) \<Rightarrow> Some (Inr (st \<in> Some ` SHOULDRUN_STATES, s'))))"

text \<open>
  The branch that submits: a dry run remembers the target in the pretend set; otherwise
  the target's record is reset and marked submitted under one commit, and the target goes
  to the backend with the dependencies submitted in this pass.
\<close>

definition submit :: "scheduler \<Rightarrow> target \<Rightarrow> target set \<Rightarrow> scheduler" where
  "submit s t submitted_deps =
     (if dry_run s
      then s\<lparr>trace := trace s @ [WouldSubmit t],
             pretend_known := insert t (pretend_known s)\<rparr>
      else s\<lparr>state_db := (state_db s)(name t := Submitted),
             meta_calls := meta_calls s
               @ [ResetNoCommit (name t), SubmittedNoCommit (name t), Commit (name t)],
             trace := trace s @ [Submit t submitted_deps]\<rparr>)"

primrec schedule :: "nat \<Rightarrow> scheduler \<Rightarrow> target \<Rightarrow> (error + bool \<times> scheduler) option" where
  "schedule 0 s t = None"
| "schedule (Suc k) s t =
     (case status k (enter_schedule s t) t of
        None \<Rightarrow> None
      | Some (Inl e) \<Rightarrow> Some (Inl e)
      | Some (Inr (st, s1)) \<Rightarrow>
          if st = Some SUBMITTED \<or> t \<in> pretend_known s1 then Some (Inr (True, s1))
          else
            (case schedule_deps (schedule k) (sort_key name (deps_of (graph s1) t)) {} s1 of
               None \<Rightarrow> None
             | Some (Inl e) \<Rightarrow> Some (Inl e)
             | Some (Inr (submitted_deps, s2)) \<Rightarrow>
                 (case must_run k s2 t submitted_deps of
                    None \<Rightarrow> None
                  | Some (Inl e) \<Rightarrow> Some (Inl e)
                  | Some (Inr (must, s3)) \<Rightarrow>
                      if must then Some (Inr (True, submit s3 t submitted_deps))
                      else Some (Inr (False, s3)))))"

fun schedule_each ::
  "(scheduler \<Rightarrow> target \<Rightarrow> (error + bool \<times> scheduler) option) \<Rightarrow> target list \<Rightarrow> scheduler
     \<Rightarrow> (error + bool list \<times> scheduler) option" where
  "schedule_each sch [] s = Some (Inr ([], s))"
| "schedule_each sch (t # ts) s =
     (case sch s t of
        None \<Rightarrow> None
      | Some (Inl e) \<Rightarrow> Some (Inl e)
      | Some (Inr (was_submitted, s')) \<Rightarrow>
          (case schedule_each sch ts s' of
             None \<Rightarrow> None
           | Some (Inl e) \<Rightarrow> Some (Inl e)
           | Some (Inr (schedules, s'')) \<Rightarrow> Some (Inr (was_submitted # schedules, s''))))"

definition schedule_many :: "nat \<Rightarrow> scheduler \<Rightarrow> target list \<Rightarrow> (error + bool list \<times> scheduler) option" where
  "schedule_many k s ts = schedule_each (schedule k) ts s"

text \<open>
  A scheduler as \<open>Scheduler.__init__\<close> leaves it: nothing pretended, no mutator called,
  nothing observed yet.
\<close>

definition new_scheduler ::
  "graph \<Rightarrow> options \<Rightarrow> bool \<Rightarrow> file_cache \<Rightarrow> state_db \<Rightarrow> (string \<Rightarrow> options) \<Rightarrow> scheduler" where
  "new_scheduler g defaults dry fc db topts =
     \<lparr>graph = g, option_defaults = defaults, dry_run = dry, file_cache = fc,
      pretend_known = {}, state_db = db, meta_calls = [], target_options = topts,
      trace = []\<rparr>"

section \<open>Acyclic dependencies\<close>

text \<open>\<open>(t, d) \<in> dep_rel g\<close>: target \<open>t\<close> depends on target \<open>d\<close>.\<close>

definition dep_rel :: "graph \<Rightarrow> (target \<times> target) set" where
  "dep_rel g = {(t, d). d \<in> set (deps_of g t)}"

text \<open>A ranking of the targets that every dependency lowers.\<close>

definition topo :: "(target \<Rightarrow> nat) \<Rightarrow> graph \<Rightarrow> bool" where
  "topo rk g = (\<forall>t d. d \<in> set (deps_of g t) \<longrightarrow> rk d < rk t)"

section \<open>Scenarios\<close>

text \<open>
  The chain of the specification's scenario S1: \<open>A\<close> makes \<open>a\<close>, \<open>B\<close> makes \<open>b\<close> from \<open>a\<close>,
  \<open>C\<close> makes \<open>c\<close> from \<open>b\<close>; and the single target of scenario S7, whose input no target
  provides.  The graphs are the ones \<open>from_targets\<close> builds (lemmas \<open>chain_graph_built\<close>,
  \<open>ext_graph_built\<close>).
\<close>

definition tA :: target where "tA = \<lparr>name = ''A'', inputs = [], outputs = [''a'']\<rparr>"
definition tB :: target where "tB = \<lparr>name = ''B'', inputs = [''a''], outputs = [''b'']\<rparr>"
definition tC :: target where "tC = \<lparr>name = ''C'', inputs = [''b''], outputs = [''c'']\<rparr>"

definition chain_graph :: graph where
  "chain_graph = \<lparr>targets = [tA, tB, tC], provides = [(''a'', tA), (''b'', tB), (''c'', tC)],
     dependencies = [(tB, [tA]), (tC, [tB])], dependents = [(tA, [tB]), (tB, [tC])],
     unresolved = {}\<rparr>"

definition tM :: target where "tM = \<lparr>name = ''M'', inputs = [''ext''], outputs = [''m'']\<rparr>"

definition ext_graph :: graph where
  "ext_graph = \<lparr>targets = [tM], provides = [(''m'', tM)], dependencies = [], dependents = [],
     unresolved = {''ext''}\<rparr>"

section \<open>Reachability and settled stores\<close>

text \<open>
  The targets reachable from \<open>t\<close> along dependencies, \<open>t\<close> included; sets of targets closed
  under dependencies; and stores in which every target of a set that has a dependency in
  one of the states \<open>update_state\<close> tests for is itself \<open>Unknown\<close>.
\<close>

definition below :: "graph \<Rightarrow> target \<Rightarrow> target set" where
  "below g t = {d. (t, d) \<in> (dep_rel g)\<^sup>*}"

definition dep_closed :: "graph \<Rightarrow> target set \<Rightarrow> bool" where
  "dep_closed g S = (\<forall>u\<in>S. set (deps_of g u) \<subseteq> S)"

definition settled :: "graph \<Rightarrow> state_db \<Rightarrow> target set \<Rightarrow> bool" where
  "settled g db S =
     (\<forall>u\<in>S. \<forall>x\<in>set (deps_of g u). needs_reset (db (name x)) \<longrightarrow> db (name u) = Unknown)"

text \<open>
  \<open>refreshed g db db' A\<close>: in \<open>db'\<close> every target of \<open>A\<close> is \<open>Unknown\<close> if one of its dependencies
  is, in \<open>db'\<close>, in one of the states \<open>update_state\<close> tests for, and keeps its state of \<open>db\<close>
  otherwise.
\<close>

definition refreshed :: "graph \<Rightarrow> state_db \<Rightarrow> state_db \<Rightarrow> target set \<Rightarrow> bool" where
  "refreshed g db db' A =
     (\<forall>u\<in>A. db' (name u) =
        (if \<exists>x\<in>set (deps_of g u). needs_reset (db' (name x)) then Unknown else db (name u)))"

text \<open>
  What a call of \<open>update_state\<close> on \<open>d\<close> does to a store that is settled on \<open>S\<close>: it returns
  the state it leaves for \<open>d\<close>, writes only \<open>Unknown\<close>, only below \<open>d\<close> and outside \<open>S\<close>,
  refreshes the targets below \<open>d\<close> and outside \<open>S\<close>, and leaves the store settled below \<open>d\<close> as
  well.
\<close>

definition upd_spec ::
  "graph \<Rightarrow> target set
     \<Rightarrow> (state_db \<Rightarrow> target \<Rightarrow> (state_db \<times> target_state \<times> meta_call list) option) \<Rightarrow> target
     \<Rightarrow> bool" where
  "upd_spec g V upd d =
     (\<forall>db S. S \<subseteq> V \<longrightarrow> dep_closed g S \<longrightarrow> settled g db S \<longrightarrow>
        (\<exists>db' calls. upd db d = Some (db', db' (name d), calls)
            \<and> (\<forall>n. n \<notin> name ` (below g d - S) \<longrightarrow> db' n = db n)
            \<and> (\<forall>n. db' n = db n \<or> db' n = Unknown)
            \<and> refreshed g db db' (below g d - S)
            \<and> settled g db' (S \<union> below g d)))"

text \<open>
  The graphs the scheduler works on: acyclic, every dependency of a target is a target, and
  the targets have distinct names (the dictionary \<open>targets\<close> is keyed by name).
\<close>

definition valid_graph :: "graph \<Rightarrow> bool" where
  "valid_graph g =
     (acyclic (dep_rel g) \<and> dep_closed g (set (targets g)) \<and> distinct (map name (targets g)))"

section \<open>Observations on the trace\<close>

text \<open>The target an event is about; the events that submit; the targets submitted, in order.\<close>

fun event_target :: "event \<Rightarrow> target" where
  "event_target (Scheduling t) = t"
| "event_target (Submit t ds) = t"
| "event_target (WouldSubmit t) = t"

fun is_submission :: "event \<Rightarrow> bool" where
  "is_submission (Scheduling t) = False"
| "is_submission (Submit t ds) = True"
| "is_submission (WouldSubmit t) = True"

definition submissions :: "event list \<Rightarrow> target list" where
  "submissions tr = map event_target (filter is_submission tr)"

text \<open>The fields of the scheduler that no call changes.\<close>

definition same_config :: "scheduler \<Rightarrow> scheduler \<Rightarrow> bool" where
  "same_config s s' =
     (graph s' = graph s \<and> option_defaults s' = option_defaults s \<and> dry_run s' = dry_run s
      \<and> file_cache s' = file_cache s)"

text \<open>
  A change of the scheduler that extends the trace by events about targets of \<open>B\<close> and adds
  to the pretend set only targets of \<open>B\<close>.
\<close>

definition extends_in :: "scheduler \<Rightarrow> target set \<Rightarrow> scheduler \<Rightarrow> bool" where
  "extends_in s B s' =
     (same_config s s'
      \<and> (\<exists>new. trace s' = trace s @ new \<and> event_target ` set new \<subseteq> B)
      \<and> pretend_known s \<subseteq> pretend_known s'
      \<and> pretend_known s' \<subseteq> pretend_known s \<union> B)"

text \<open>
  Scenario S8: the chain in a dry run, no file on disk, every record \<open>Unknown\<close>, no options.
\<close>

definition chain_dry :: scheduler where
  "chain_dry = new_scheduler chain_graph Map.empty True (\<lambda>p. None) (\<lambda>n. Unknown) (\<lambda>n. Map.empty)"

text \<open>
  \<open>A\<close> and \<open>B\<close> alone; the file \<open>a\<close> exists, \<open>b\<close> does not; every record \<open>Unknown\<close>; a real
  run.  Only \<open>B\<close> is stale.
\<close>

definition pair_graph :: graph where
  "pair_graph = \<lparr>targets = [tA, tB], provides = [(''a'', tA), (''b'', tB)],
     dependencies = [(tB, [tA])], dependents = [(tA, [tB])], unresolved = {}\<rparr>"

definition pair_real :: scheduler where
  "pair_real = new_scheduler pair_graph Map.empty False
     (\<lambda>p. if p = ''a'' then Some 1 else None) (\<lambda>n. Unknown) (\<lambda>n. Map.empty)"

text \<open>
  \<open>A\<close> alone, its record \<open>Submitted\<close> by an earlier run, its output not yet on disk; a fresh
  scheduler in a real run.
\<close>

definition single_graph :: graph where
  "single_graph = \<lparr>targets = [tA], provides = [(''a'', tA)],
     dependencies = [], dependents = [], unresolved = {}\<rparr>"

definition single_submitted :: scheduler where
  "single_submitted = new_scheduler single_graph Map.empty False
     (\<lambda>p. None) ((\<lambda>n. Unknown)(''A'' := Submitted)) (\<lambda>n. Map.empty)"

section \<open>Invariants of the cycle check\<close>

text \<open>
  The invariants of the cycle check.  A colouring is \<open>done_ok\<close> when every finished node has
  only finished dependencies and lies on no cycle; a step of the walk \<open>only_finishes\<close>: it
  leaves started and finished nodes alone and turns fresh nodes into finished ones at most.
\<close>

definition done_ok :: "graph \<Rightarrow> colouring \<Rightarrow> bool" where
  "done_ok g st =
     (\<forall>n. st n = Some Done \<longrightarrow>
        (\<forall>d\<in>set (deps_of g n). st d = Some Done) \<and> (n, n) \<notin> (dep_rel g)\<^sup>+)"

definition only_finishes :: "colouring \<Rightarrow> colouring \<Rightarrow> bool" where
  "only_finishes st st' =
     ((\<forall>m. st m \<noteq> Some Fresh \<longrightarrow> st' m = st m)
      \<and> (\<forall>m. st m = Some Fresh \<longrightarrow> st' m = Some Fresh \<or> st' m = Some Done))"

definition nfresh :: "colouring \<Rightarrow> nat" where
  "nfresh st = card {m. st m = Some Fresh}"

text \<open>
  What a call \<open>visit n st\<close> of the walk guarantees, when \<open>n\<close> is fresh, the colouring is
  \<open>done_ok\<close> and every started node reaches \<open>n\<close>: it returns if \<open>K\<close> exceeds the number of fresh
  nodes; an error is the cycle error, and then there is a cycle; a result finishes \<open>n\<close>.
\<close>

definition visit_spec ::
  "graph \<Rightarrow> nat \<Rightarrow> (target \<Rightarrow> colouring \<Rightarrow> (error + colouring) option) \<Rightarrow> bool" where
  "visit_spec g K visit =
     (\<forall>n st. n \<in> set (targets g) \<longrightarrow> dom st = set (targets g) \<longrightarrow> st n = Some Fresh \<longrightarrow>
        done_ok g st \<longrightarrow> (\<forall>m. st m = Some Started \<longrightarrow> (m, n) \<in> (dep_rel g)\<^sup>+) \<longrightarrow>
          (nfresh st < K \<longrightarrow> visit n st \<noteq> None)
        \<and> (\<forall>e. visit n st = Some (Inl e) \<longrightarrow>
              (\<exists>u. e = CyclicDependencyError u) \<and> \<not> acyclic (dep_rel g))
        \<and> (\<forall>st'. visit n st = Some (Inr st') \<longrightarrow>
              dom st' = set (targets g) \<and> done_ok g st' \<and> st' n = Some Done
              \<and> only_finishes st st'))"

text \<open>Every edge of the dependency relation joins targets of the graph.\<close>

definition edges_in_targets :: "graph \<Rightarrow> bool" where
  "edges_in_targets g =
     (\<forall>t d. d \<in> set (deps_of g t) \<longrightarrow> t \<in> set (targets g) \<and> d \<in> set (targets g))"

section \<open>Construction from targets: what is built\<close>

text \<open>
  The relation a list of targets induces: \<open>t\<close> consumes a file that \<open>d\<close> produces.
\<close>

definition consumes :: "target list \<Rightarrow> (target \<times> target) set" where
  "consumes ts = {(t, d). t \<in> set ts \<and> d \<in> set ts \<and> set (inputs t) \<inter> set (outputs d) \<noteq> {}}"

text \<open>The graph that \<open>from_targets\<close> hands to \<open>Graph.__init__\<close>.\<close>

text \<open>Scenario S5: \<open>P\<close> makes \<open>p\<close> from \<open>q\<close>, \<open>Q\<close> makes \<open>q\<close> from \<open>p\<close>.\<close>

definition tP :: target where "tP = \<lparr>name = ''P'', inputs = [''q''], outputs = [''p'']\<rparr>"
definition tQ :: target where "tQ = \<lparr>name = ''Q'', inputs = [''p''], outputs = [''q'']\<rparr>"

definition assemble :: "target list \<Rightarrow> (path \<times> target) list \<Rightarrow> graph" where
  "assemble ts prov =
     (case build_dependencies prov ts ([], {}) of
        (deps, unres) \<Rightarrow>
          \<lparr>targets = ts, provides = prov, dependencies = deps,
           dependents = build_dependents deps [], unresolved = unres\<rparr>)"

section \<open>Option normalisation: properties\<close>

lemma prepare_target_options_apply:
  "prepare_target_options d opts k =
     (case d k of
        None \<Rightarrow> None
      | Some dv \<Rightarrow>
          (case opts k of
             None \<Rightarrow> (if dv = None then None else Some dv)
           | Some v \<Rightarrow> (if v = None then None else Some v)))"
  by (auto simp: prepare_target_options_def Let_def map_add_def dom_def
      split: option.splits)

lemma prepare_target_options_dom:
  "dom (prepare_target_options d opts) \<subseteq> dom d"
  by (auto simp: prepare_target_options_apply split: option.splits if_splits)

lemma prepare_target_options_no_None:
  "prepare_target_options d opts k \<noteq> Some None"
  by (simp add: prepare_target_options_apply split: option.splits)

lemma prepare_target_options_twice_apply:
  "prepare_target_options d (prepare_target_options d opts) k = prepare_target_options d opts k
     \<longleftrightarrow> \<not> (\<exists>v. d k = Some (Some v) \<and> opts k = Some None)"
  by (auto simp: prepare_target_options_apply split: option.splits)

text \<open>
  C10 as stated fails: with the default \<open>cores = 1\<close> and the target option \<open>cores = None\<close>
  the first call removes \<open>cores\<close> and the second call puts the default back.
\<close>

theorem prepare_target_options_not_idempotent:
  "prepare_target_options [''cores'' \<mapsto> Some (IntV 1)]
     (prepare_target_options [''cores'' \<mapsto> Some (IntV 1)] [''cores'' \<mapsto> None])
   \<noteq> prepare_target_options [''cores'' \<mapsto> Some (IntV 1)] [''cores'' \<mapsto> None]"
proof
  assume "prepare_target_options [''cores'' \<mapsto> Some (IntV 1)]
     (prepare_target_options [''cores'' \<mapsto> Some (IntV 1)] [''cores'' \<mapsto> None])
   = prepare_target_options [''cores'' \<mapsto> Some (IntV 1)] [''cores'' \<mapsto> None]"
  then have "prepare_target_options [''cores'' \<mapsto> Some (IntV 1)]
     (prepare_target_options [''cores'' \<mapsto> Some (IntV 1)] [''cores'' \<mapsto> None]) ''cores''
   = prepare_target_options [''cores'' \<mapsto> Some (IntV 1)] [''cores'' \<mapsto> None] ''cores''"
    by simp
  then show False
    by (simp add: prepare_target_options_apply)
qed

text \<open>
  C10, amended: a second call of \<open>prepare_target_options\<close> leaves the options as the first
  call left them exactly when the target sets no option to \<open>None\<close> whose backend default
  is not \<open>None\<close>; after any call every key of the options is a key of the backend's
  defaults, and no value is \<open>None\<close>.
\<close>

theorem prepare_target_options_idempotent_iff:
  "(prepare_target_options d (prepare_target_options d opts) = prepare_target_options d opts
      \<longleftrightarrow> (\<forall>k v. d k = Some (Some v) \<longrightarrow> opts k \<noteq> Some None))
   \<and> dom (prepare_target_options d opts) \<subseteq> dom d
   \<and> None \<notin> ran (prepare_target_options d opts)"
proof (intro conjI)
  show "prepare_target_options d (prepare_target_options d opts) = prepare_target_options d opts
      \<longleftrightarrow> (\<forall>k v. d k = Some (Some v) \<longrightarrow> opts k \<noteq> Some None)"
    unfolding fun_eq_iff prepare_target_options_twice_apply by blast
  show "dom (prepare_target_options d opts) \<subseteq> dom d"
    by (rule prepare_target_options_dom)
  show "None \<notin> ran (prepare_target_options d opts)"
    by (simp add: ran_def prepare_target_options_no_None)
qed

theorem prepare_target_options_idempotent_iff_witness:
  "prepare_target_options [''cores'' \<mapsto> Some (IntV 1), ''queue'' \<mapsto> None]
     (prepare_target_options [''cores'' \<mapsto> Some (IntV 1), ''queue'' \<mapsto> None]
        [''cores'' \<mapsto> Some (IntV 4), ''gpu'' \<mapsto> Some (IntV 1)])
   = prepare_target_options [''cores'' \<mapsto> Some (IntV 1), ''queue'' \<mapsto> None]
        [''cores'' \<mapsto> Some (IntV 4), ''gpu'' \<mapsto> Some (IntV 1)]"
proof -
  have "\<forall>k v. [''cores'' \<mapsto> Some (IntV 1), ''queue'' \<mapsto> None] k = Some (Some v)
          \<longrightarrow> [''cores'' \<mapsto> Some (IntV 4), ''gpu'' \<mapsto> Some (IntV 1)] k \<noteq> Some None"
    by simp
  with prepare_target_options_idempotent_iff
         [of "[''cores'' \<mapsto> Some (IntV 1), ''queue'' \<mapsto> None]"
             "[''cores'' \<mapsto> Some (IntV 4), ''gpu'' \<mapsto> Some (IntV 1)]"]
  show ?thesis by blast
qed

section \<open>Acyclic graphs have a ranking; enough depth gives a result\<close>

lemma deps_of_in_dependencies:
  "d \<in> set (deps_of g t) \<Longrightarrow> \<exists>ds. (t, ds) \<in> set (dependencies g) \<and> d \<in> set ds"
  by (auto simp: deps_of_def lookup_default_def split: option.splits dest: map_of_SomeD[OF sym])

lemma finite_dep_rel: "finite (dep_rel g)"
proof (rule finite_subset)
  show "dep_rel g \<subseteq> fst ` set (dependencies g) \<times> (\<Union>x\<in>set (dependencies g). set (snd x))"
    by (force simp: dep_rel_def dest: deps_of_in_dependencies)
  show "finite (fst ` set (dependencies g) \<times> (\<Union>x\<in>set (dependencies g). set (snd x)))"
    by simp
qed

lemma acyclic_rank:
  assumes "acyclic (dep_rel g)"
  shows "\<exists>rk :: target \<Rightarrow> nat. \<forall>t d. d \<in> set (deps_of g t) \<longrightarrow> rk d < rk t"
proof -
  let ?R = "dep_rel g"
  let ?below = "\<lambda>t. {x. (t, x) \<in> ?R\<^sup>+}"
  have fin: "finite (?below t)" for t
  proof (rule finite_subset)
    show "?below t \<subseteq> Range (?R\<^sup>+)" by (blast intro: RangeI)
    show "finite (Range (?R\<^sup>+))" using finite_dep_rel by (simp add: finite_Range)
  qed
  have "card (?below d) < card (?below t)" if "d \<in> set (deps_of g t)" for t d
  proof (rule psubset_card_mono[OF fin])
    from that have e: "(t, d) \<in> ?R" by (simp add: dep_rel_def)
    have "?below d \<subseteq> ?below t" using e by (auto intro: trancl_into_trancl2)
    moreover have "d \<in> ?below t" using e by auto
    moreover have "d \<notin> ?below d" using assms by (auto simp: acyclic_def)
    ultimately show "?below d \<subset> ?below t" by blast
  qed
  then have "\<forall>t d. d \<in> set (deps_of g t) \<longrightarrow> card (?below d) < card (?below t)"
    by blast
  then show ?thesis by (rule exI[of _ "\<lambda>t. card (?below t)"])
qed

lemma any_dep_should_run_cong:
  "(\<And>d. d \<in> set ds \<Longrightarrow> f d = f' d) \<Longrightarrow> any_dep_should_run f ds = any_dep_should_run f' ds"
  by (induction ds) (auto split: option.splits sum.splits)

lemma should_run_fuel:
  "topo rk g \<Longrightarrow> rk t < k \<Longrightarrow> rk t < k' \<Longrightarrow> should_run k g fc t = should_run k' g fc t"
proof (induction k arbitrary: k' t)
  case 0
  then show ?case by simp
next
  case (Suc k)
  then obtain j where k': "k' = Suc j" by (cases k') auto
  have "any_dep_should_run (should_run k g fc) (deps_of g t)
      = any_dep_should_run (should_run j g fc) (deps_of g t)"
  proof (rule any_dep_should_run_cong)
    fix d assume "d \<in> set (deps_of g t)"
    with Suc.prems k' have "rk d < k" "rk d < j" by (auto simp: topo_def dest: less_trans_Suc)
    with Suc show "should_run k g fc d = should_run j g fc d" by blast
  qed
  then show ?case by (simp add: k')
qed

lemma any_dep_should_run_returns:
  "(\<And>d. d \<in> set ds \<Longrightarrow> \<exists>r. f d = Some r) \<Longrightarrow> \<exists>r. any_dep_should_run f ds = Some r"
  by (induction ds) (auto split: option.splits sum.splits)

lemma should_run_returns:
  "topo rk g \<Longrightarrow> rk t < k \<Longrightarrow> \<exists>r. should_run k g fc t = Some r"
proof (induction k arbitrary: t)
  case 0
  then show ?case by simp
next
  case (Suc k)
  have "\<exists>r. any_dep_should_run (should_run k g fc) (deps_of g t) = Some r"
  proof (rule any_dep_should_run_returns)
    fix d assume "d \<in> set (deps_of g t)"
    with Suc.prems have "rk d < k" by (auto simp: topo_def dest: less_trans_Suc)
    with Suc show "\<exists>r. should_run k g fc d = Some r" by blast
  qed
  then show ?case by (auto split: option.splits sum.splits)
qed

lemma any_dep_should_run_False:
  "any_dep_should_run f ds = Some (Inr False) \<longleftrightarrow> (\<forall>d\<in>set ds. f d = Some (Inr False))"
  by (induction ds) (auto split: option.splits sum.splits)

lemma any_dep_should_run_True:
  "any_dep_should_run f ds = Some (Inr True) \<Longrightarrow> \<exists>d\<in>set ds. f d = Some (Inr True)"
  by (induction ds) (auto split: option.splits sum.splits if_splits)

lemma any_dep_should_run_value:
  "any_dep_should_run f ds = Some (Inr b) \<Longrightarrow> b = (\<exists>d\<in>set ds. f d = Some (Inr True))"
  by (induction ds) (auto split: option.splits sum.splits if_splits)

section \<open>Status and the missing-file error\<close>

lemma topo_dep: "topo rk g \<Longrightarrow> d \<in> set (deps_of g t) \<Longrightarrow> rk d < rk t"
  by (simp add: topo_def)

lemma update_deps_returns:
  "(\<And>d db. d \<in> set ds \<Longrightarrow> \<exists>r. upd db d = Some r) \<Longrightarrow> \<exists>r. update_deps upd t ds db st cs = Some r"
proof (induction ds arbitrary: db st cs)
  case Nil
  then show ?case by simp
next
  case (Cons d ds)
  from Cons.prems[of d db] obtain r where "upd db d = Some r" by auto
  then obtain db' dst dcs where "upd db d = Some (db', dst, dcs)" by (cases r) auto
  moreover have "\<exists>r. update_deps upd t ds dbx stx csx = Some r" for dbx stx csx
    by (rule Cons.IH) (use Cons.prems in auto)
  ultimately show ?case by simp
qed

lemma update_state_returns:
  "topo rk g \<Longrightarrow> rk t < k \<Longrightarrow> \<exists>r. update_state k g db t = Some r"
proof (induction k arbitrary: t db)
  case 0
  then show ?case by simp
next
  case (Suc k)
  have "\<exists>r. update_deps (update_state k g) t (deps_of g t) db (db (name t)) [] = Some r"
  proof (rule update_deps_returns)
    fix d db' assume "d \<in> set (deps_of g t)"
    with Suc.prems have "rk d < k" by (auto simp: topo_def dest: less_trans_Suc)
    with Suc show "\<exists>r. update_state k g db' d = Some r" by blast
  qed
  then show ?case by simp
qed

lemma status_of_table: "status_of st b = Some (status_table st b)"
  by (cases st; cases b)
     (simp_all add: status_of_def is_unknown_def is_submitted_def is_running_def
        is_completed_def is_failed_def is_cancelled_def is_killed_def)

text \<open>
  C2: \<open>status t\<close> applies \<open>update_state t\<close>, then \<open>should_run t\<close>, and reports the entry of the
  specification's table for the state that \<open>update_state\<close> returned and the value of
  \<open>should_run\<close>; the store is the one \<open>update_state\<close> left, and the mutator calls are the
  ones \<open>update_state\<close> made.  With acyclic dependencies both calls return.
\<close>

theorem status_follows_table:
  assumes "acyclic (dep_rel (graph s))"
  shows "\<exists>K. \<forall>k\<ge>K. \<exists>db' state calls r.
           update_state k (graph s) (state_db s) t = Some (db', state, calls)
         \<and> should_run k (graph s) (file_cache s) t = Some r
         \<and> status k s t =
             (case r of
                Inl e \<Rightarrow> Some (Inl e)
              | Inr b \<Rightarrow> Some (Inr (Some (status_table state b), 
                           s\<lparr>state_db := db', meta_calls := meta_calls s @ calls\<rparr>)))"
proof -
  from acyclic_rank[OF assms] obtain rk where rk: "topo rk (graph s)"
    by (auto simp: topo_def)
  show ?thesis
  proof (intro exI[of _ "Suc (rk t)"] allI impI)
    fix k assume "Suc (rk t) \<le> k"
    then have k: "rk t < k" by simp
    from update_state_returns[OF rk k] obtain x
      where "update_state k (graph s) (state_db s) t = Some x" by blast
    then obtain db' state calls
      where u: "update_state k (graph s) (state_db s) t = Some (db', state, calls)"
      by (cases x) auto
    from should_run_returns[OF rk k] obtain r
      where r: "should_run k (graph s) (file_cache s) t = Some r" by blast
    show "\<exists>db' state calls r.
           update_state k (graph s) (state_db s) t = Some (db', state, calls)
         \<and> should_run k (graph s) (file_cache s) t = Some r
         \<and> status k s t =
             (case r of
                Inl e \<Rightarrow> Some (Inl e)
              | Inr b \<Rightarrow> Some (Inr (Some (status_table state b), 
                           s\<lparr>state_db := db', meta_calls := meta_calls s @ calls\<rparr>)))"
      using u r by (auto simp: status_def status_of_table split: sum.splits)
  qed
qed

lemma check_inputs_Inl:
  "check_inputs g fc t ps = Inl e \<Longrightarrow>
     \<exists>p\<in>set ps. p \<in> unresolved g \<and> fc p = None \<and> e = FileRequiredButNotProvidedError p t"
  by (induction ps) (auto split: if_splits)

lemma check_inputs_Inr:
  "check_inputs g fc t ps = Inr u \<longleftrightarrow> (\<forall>p\<in>set ps. p \<in> unresolved g \<longrightarrow> fc p \<noteq> None)"
  by (induction ps) auto

lemma should_run_Suc_no_dep:
  assumes "\<forall>d\<in>set (deps_of g t). should_run k g fc d = Some (Inr False)"
  shows "should_run (Suc k) g fc t = Some (should_run_self g fc t)"
  using assms by (simp add: iffD2[OF any_dep_should_run_False])

lemma py_gt_not_required: "py_gt a b \<noteq> Inl (FileRequiredButNotProvidedError p t)"
  by (auto simp: py_gt_def split: option.splits)

lemma pair_gt_not_required: "pair_gt a b \<noteq> Inl (FileRequiredButNotProvidedError p t)"
  by (auto simp: pair_gt_def py_gt_not_required)

lemma max_from_not_required: "max_from m xs \<noteq> Inl (FileRequiredButNotProvidedError p t)"
  by (induction xs arbitrary: m) (auto simp: pair_gt_not_required split: sum.splits)

lemma min_from_not_required: "min_from m xs \<noteq> Inl (FileRequiredButNotProvidedError p t)"
  by (induction xs arbitrary: m) (auto simp: pair_gt_not_required split: sum.splits)

lemma compare_timestamps_not_required:
  "compare_timestamps fc t \<noteq> Inl (FileRequiredButNotProvidedError p u)"
  by (auto simp: compare_timestamps_def py_max_def py_min_def max_from_not_required
      min_from_not_required py_gt_not_required split: sum.splits list.splits prod.splits)

lemma should_run_self_missing:
  assumes "\<exists>p\<in>set (inputs t). p \<in> unresolved g \<and> fc p = None"
  shows "\<exists>p\<in>set (inputs t). p \<in> unresolved g \<and> fc p = None
           \<and> should_run_self g fc t = Inl (FileRequiredButNotProvidedError p t)"
proof (cases "check_inputs g fc t (inputs t)")
  case (Inl e)
  from check_inputs_Inl[OF Inl] show ?thesis by (auto simp: should_run_self_def Inl)
next
  case (Inr u)
  with assms show ?thesis by (auto simp: check_inputs_Inr)
qed

lemma should_run_self_present:
  assumes "\<forall>p\<in>set (inputs t). p \<in> unresolved g \<longrightarrow> fc p \<noteq> None"
  shows "should_run_self g fc t \<noteq> Inl (FileRequiredButNotProvidedError p u)"
proof -
  from assms have "check_inputs g fc t (inputs t) = Inr ()" by (simp add: check_inputs_Inr)
  then show ?thesis by (simp add: should_run_self_def compare_timestamps_not_required)
qed

lemma schedule_raises:
  assumes "update_state k (graph s) (state_db s) t \<noteq> None"
    and "should_run k (graph s) (file_cache s) t = Some (Inl e)"
  shows "schedule (Suc k) s t = Some (Inl e)"
  using assms by (auto simp: status_def enter_schedule_def split: option.splits)

text \<open>
  C8: let no dependency of \<open>t\<close> run.  If an input of \<open>t\<close> is unresolved and missing, then
  \<open>should_run t\<close>, and with it \<open>schedule t\<close>, raises the error that names such a path and \<open>t\<close>.
  If every unresolved input of \<open>t\<close> exists, \<open>should_run t\<close> raises no such error for \<open>t\<close>.
\<close>

theorem required_file_missing:
  assumes "acyclic (dep_rel (graph s))"
  shows "\<exists>K. \<forall>k\<ge>K.
     (\<forall>d\<in>set (deps_of (graph s) t). should_run k (graph s) (file_cache s) d = Some (Inr False)) \<longrightarrow>
       ((\<exists>p\<in>set (inputs t). p \<in> unresolved (graph s) \<and> file_cache s p = None) \<longrightarrow>
          (\<exists>p\<in>set (inputs t). p \<in> unresolved (graph s) \<and> file_cache s p = None
             \<and> should_run k (graph s) (file_cache s) t = Some (Inl (FileRequiredButNotProvidedError p t))
             \<and> schedule k s t = Some (Inl (FileRequiredButNotProvidedError p t))))
     \<and> ((\<forall>p\<in>set (inputs t). p \<in> unresolved (graph s) \<longrightarrow> file_cache s p \<noteq> None) \<longrightarrow>
          (\<forall>p. should_run k (graph s) (file_cache s) t \<noteq> Some (Inl (FileRequiredButNotProvidedError p t))))"
proof -
  let ?g = "graph s" and ?fc = "file_cache s"
  from acyclic_rank[OF assms] obtain rk where rk: "topo rk ?g"
    by (auto simp: topo_def)
  show ?thesis
  proof (intro exI[of _ "rk t + 2"] allI impI)
    fix k assume "rk t + 2 \<le> k"
    then obtain j i where k: "k = Suc j" and j: "j = Suc i" and i: "rk t \<le> i"
      by (metis Suc_le_D add_2_eq_Suc' Suc_le_mono)
    assume nodep: "\<forall>d\<in>set (deps_of ?g t). should_run k ?g ?fc d = Some (Inr False)"
    have dep_fuel: "should_run m ?g ?fc d = Some (Inr False)"
      if "d \<in> set (deps_of ?g t)" "i \<le> m" for d m
    proof -
      from topo_dep[OF rk that(1)] that(2) i have "rk d < m" "rk d < k" using k j by auto
      then show ?thesis using should_run_fuel[OF rk, of d m k ?fc] nodep that by simp
    qed
    have "\<forall>d\<in>set (deps_of ?g t). should_run j ?g ?fc d = Some (Inr False)"
      using dep_fuel[of _ j] j by (simp del: should_run.simps)
    from should_run_Suc_no_dep[OF this]
    have self_k: "should_run k ?g ?fc t = Some (should_run_self ?g ?fc t)"
      by (simp only: k)
    have "\<forall>d\<in>set (deps_of ?g t). should_run i ?g ?fc d = Some (Inr False)"
      using dep_fuel[of _ i] by (simp del: should_run.simps)
    from should_run_Suc_no_dep[OF this]
    have self_j: "should_run j ?g ?fc t = Some (should_run_self ?g ?fc t)"
      by (simp only: j)
    have upd: "update_state j ?g (state_db s') t \<noteq> None" for s'
      using update_state_returns[OF rk, of t j] i j by fastforce
    show "((\<exists>p\<in>set (inputs t). p \<in> unresolved ?g \<and> ?fc p = None) \<longrightarrow>
          (\<exists>p\<in>set (inputs t). p \<in> unresolved ?g \<and> ?fc p = None
             \<and> should_run k ?g ?fc t = Some (Inl (FileRequiredButNotProvidedError p t))
             \<and> schedule k s t = Some (Inl (FileRequiredButNotProvidedError p t))))
     \<and> ((\<forall>p\<in>set (inputs t). p \<in> unresolved ?g \<longrightarrow> ?fc p \<noteq> None) \<longrightarrow>
          (\<forall>p. should_run k ?g ?fc t \<noteq> Some (Inl (FileRequiredButNotProvidedError p t))))"
    proof (intro conjI impI)
      assume "\<exists>p\<in>set (inputs t). p \<in> unresolved ?g \<and> ?fc p = None"
      from should_run_self_missing[OF this] obtain p where p: "p \<in> set (inputs t)"
        "p \<in> unresolved ?g" "?fc p = None"
        "should_run_self ?g ?fc t = Inl (FileRequiredButNotProvidedError p t)" by blast
      have "schedule (Suc j) s t = Some (Inl (FileRequiredButNotProvidedError p t))"
        by (rule schedule_raises) (use upd[of s] self_j p in auto)
      with p self_k k show "\<exists>p\<in>set (inputs t). p \<in> unresolved ?g \<and> ?fc p = None
             \<and> should_run k ?g ?fc t = Some (Inl (FileRequiredButNotProvidedError p t))
             \<and> schedule k s t = Some (Inl (FileRequiredButNotProvidedError p t))" by auto
    next
      assume "\<forall>p\<in>set (inputs t). p \<in> unresolved ?g \<longrightarrow> ?fc p \<noteq> None"
      from should_run_self_present[OF this] self_k
      show "\<forall>p. should_run k ?g ?fc t \<noteq> Some (Inl (FileRequiredButNotProvidedError p t))"
        by auto
    qed
  qed
qed

section \<open>Scenarios: the chain and the missing external file\<close>

lemma topo_acyclic:
  assumes "topo rk g"
  shows "acyclic (dep_rel g)"
proof -
  have "dep_rel g \<subseteq> (measure rk)\<inverse>"
    using assms by (auto simp: dep_rel_def topo_def)
  moreover have "acyclic ((measure rk)\<inverse>)"
    by (simp add: wf_acyclic)
  ultimately show ?thesis by (rule acyclic_subset[rotated])
qed

lemma chain_graph_built: "from_targets [tA, tB, tC] = Some (Inr chain_graph)"
  by (simp add: from_targets_def tA_def tB_def tC_def chain_graph_def add_to_def Graph_init_def
      check_for_circular_dependencies_def check_for_circular_dependencies_upto_def
      initial_colouring_def deps_of_def lookup_default_def)

lemma ext_graph_built: "from_targets [tM] = Some (Inr ext_graph)"
  by (simp add: from_targets_def tM_def ext_graph_def add_to_def Graph_init_def
      check_for_circular_dependencies_def check_for_circular_dependencies_upto_def
      initial_colouring_def deps_of_def lookup_default_def)

lemma chain_targets_distinct: "tA \<noteq> tB" "tA \<noteq> tC" "tB \<noteq> tC" "tB \<noteq> tA" "tC \<noteq> tA" "tC \<noteq> tB"
  by (simp_all add: tA_def tB_def tC_def)

lemma chain_deps:
  "deps_of chain_graph t = (if t = tB then [tA] else if t = tC then [tB] else [])"
  by (simp add: deps_of_def lookup_default_def chain_graph_def)

lemma chain_acyclic: "acyclic (dep_rel chain_graph)"
proof (rule topo_acyclic)
  show "topo (\<lambda>t. if t = tC then 2 else if t = tB then 1 else (0::nat)) chain_graph"
    by (simp add: topo_def chain_deps chain_targets_distinct)
qed

lemma ext_acyclic: "acyclic (dep_rel ext_graph)"
  by (simp add: dep_rel_def deps_of_def lookup_default_def ext_graph_def acyclic_def)

theorem status_follows_table_witness:
  "acyclic (dep_rel (graph (new_scheduler chain_graph Map.empty False (\<lambda>p. None) (\<lambda>n. Unknown) (\<lambda>n. Map.empty))))
   \<and> (\<exists>K. \<forall>k\<ge>K. \<exists>db' state calls r.
           update_state k chain_graph (\<lambda>n. Unknown) tC = Some (db', state, calls)
         \<and> should_run k chain_graph (\<lambda>p. None) tC = Some r
         \<and> status k (new_scheduler chain_graph Map.empty False (\<lambda>p. None) (\<lambda>n. Unknown) (\<lambda>n. Map.empty)) tC =
             (case r of
                Inl e \<Rightarrow> Some (Inl e)
              | Inr b \<Rightarrow> Some (Inr (Some (status_table state b),
                  (new_scheduler chain_graph Map.empty False (\<lambda>p. None) (\<lambda>n. Unknown) (\<lambda>n. Map.empty))\<lparr>state_db := db', meta_calls := calls\<rparr>))))"
proof -
  have h: "acyclic (dep_rel (graph (new_scheduler chain_graph Map.empty False (\<lambda>p. None) (\<lambda>n. Unknown) (\<lambda>n. Map.empty))))"
    by (simp add: new_scheduler_def chain_acyclic)
  from status_follows_table[OF h, of tC] h show ?thesis
    by (simp add: new_scheduler_def cong del: sum.case_cong_weak)
qed

theorem required_file_missing_witness:
  "acyclic (dep_rel (graph (new_scheduler ext_graph Map.empty False (\<lambda>p. None) (\<lambda>n. Unknown) (\<lambda>n. Map.empty))))
   \<and> (\<exists>K. \<forall>k\<ge>K.
        should_run k ext_graph (\<lambda>p. None) tM = Some (Inl (FileRequiredButNotProvidedError ''ext'' tM))
      \<and> schedule k (new_scheduler ext_graph Map.empty False (\<lambda>p. None) (\<lambda>n. Unknown) (\<lambda>n. Map.empty)) tM
          = Some (Inl (FileRequiredButNotProvidedError ''ext'' tM)))"
proof -
  have h: "acyclic (dep_rel (graph (new_scheduler ext_graph Map.empty False (\<lambda>p. None) (\<lambda>n. Unknown) (\<lambda>n. Map.empty))))"
    by (simp add: new_scheduler_def ext_acyclic)
  have d: "deps_of ext_graph tM = []"
    by (simp add: deps_of_def lookup_default_def ext_graph_def)
  have u: "unresolved ext_graph = {''ext''}" by (simp add: ext_graph_def)
  have i: "inputs tM = [''ext'']" by (simp add: tM_def)
  from required_file_missing[OF h, of tM] h show ?thesis
    by (simp add: new_scheduler_def d u i)
qed

section \<open>update_state\<close>

lemma below_refl [simp]: "t \<in> below g t"
  by (simp add: below_def)

lemma below_dep: "d \<in> set (deps_of g t) \<Longrightarrow> below g d \<subseteq> below g t"
  by (auto simp: below_def dep_rel_def intro: converse_rtrancl_into_rtrancl)

lemma below_unfold: "below g t = insert t (\<Union>d\<in>set (deps_of g t). below g d)"
proof
  show "below g t \<subseteq> insert t (\<Union>d\<in>set (deps_of g t). below g d)"
  proof
    fix x assume "x \<in> below g t"
    then have "(t, x) \<in> (dep_rel g)\<^sup>*" by (simp add: below_def)
    then show "x \<in> insert t (\<Union>d\<in>set (deps_of g t). below g d)"
      by (cases rule: converse_rtranclE) (auto simp: below_def dep_rel_def)
  qed
  show "insert t (\<Union>d\<in>set (deps_of g t). below g d) \<subseteq> below g t"
    using below_dep by auto
qed

lemma dep_closed_below: "dep_closed g (below g t)"
  by (auto simp: dep_closed_def below_def dep_rel_def intro: rtrancl_into_rtrancl)

lemma dep_closed_Un: "dep_closed g A \<Longrightarrow> dep_closed g B \<Longrightarrow> dep_closed g (A \<union> B)"
  by (auto simp: dep_closed_def)

lemma dep_closed_reach:
  assumes "dep_closed g V" "(t, x) \<in> (dep_rel g)\<^sup>*" "t \<in> V"
  shows "x \<in> V"
  using assms(2,3,1) by (induction rule: rtrancl_induct) (auto simp: dep_closed_def dep_rel_def)

lemma dep_closed_below_subset: "dep_closed g V \<Longrightarrow> t \<in> V \<Longrightarrow> below g t \<subseteq> V"
  by (auto simp: below_def intro: dep_closed_reach)

lemma acyclic_not_below:
  assumes "acyclic (dep_rel g)" "d \<in> set (deps_of g t)"
  shows "t \<notin> below g d"
proof
  assume "t \<in> below g d"
  then have "(d, t) \<in> (dep_rel g)\<^sup>*" by (simp add: below_def)
  moreover have "(t, d) \<in> dep_rel g" using assms(2) by (simp add: dep_rel_def)
  ultimately have "(t, t) \<in> (dep_rel g)\<^sup>+" by (rule rtrancl_into_trancl2[rotated])
  with assms(1) show False by (simp add: acyclic_def)
qed

lemma inj_name_neq:
  "inj_on name V \<Longrightarrow> u \<in> V \<Longrightarrow> A \<subseteq> V \<Longrightarrow> u \<notin> A \<Longrightarrow> name u \<notin> name ` A"
  by (auto simp: inj_on_def)

lemma update_deps_settles:
  assumes ac: "acyclic (dep_rel g)"
    and V: "dep_closed g V" "inj_on name V" "t \<in> V"
  shows "\<lbrakk>\<forall>d\<in>set ds. upd_spec g V upd d; set ds \<subseteq> set (deps_of g t); S \<subseteq> V;
          dep_closed g S; settled g db S; P \<subseteq> S;
          \<forall>d\<in>P. needs_reset (db (name d)) \<longrightarrow> db (name t) = Unknown;
          t \<notin> S \<longrightarrow> db (name t) = (if \<exists>d\<in>P. needs_reset (db (name d)) then Unknown else orig)\<rbrakk> \<Longrightarrow>
    \<exists>db' calls. update_deps upd t ds db (db (name t)) cs = Some (db', db' (name t), calls)
       \<and> (\<forall>n. n \<notin> name ` (insert t (\<Union>d\<in>set ds. below g d) - S) \<longrightarrow> db' n = db n)
       \<and> (\<forall>n. db' n = db n \<or> db' n = Unknown)
       \<and> settled g db' (S \<union> (\<Union>d\<in>set ds. below g d))
       \<and> (\<forall>d\<in>P \<union> set ds. needs_reset (db' (name d)) \<longrightarrow> db' (name t) = Unknown)
       \<and> refreshed g db db' ((\<Union>d\<in>set ds. below g d) - S)
       \<and> (t \<notin> S \<longrightarrow> db' (name t) =
            (if \<exists>d\<in>P \<union> set ds. needs_reset (db' (name d)) then Unknown else orig))"
proof (induction ds arbitrary: db S P cs)
  case Nil
  then show ?case by (simp add: refreshed_def)
next
  case (Cons d ds)
  let ?S1 = "S \<union> below g d"
  let ?B = "\<Union>d\<in>set ds. below g d"
  have d_dep: "d \<in> set (deps_of g t)" using Cons.prems(2) by simp
  with V have dV: "d \<in> V" by (auto simp: dep_closed_def)
  have bV: "below g d \<subseteq> V" by (rule dep_closed_below_subset[OF V(1) dV])
  have t_nb: "t \<notin> below g d" by (rule acyclic_not_below[OF ac d_dep])
  have BV: "?B \<subseteq> V"
  proof
    fix x assume "x \<in> ?B"
    then obtain e where e: "e \<in> set ds" "x \<in> below g e" by blast
    with Cons.prems(2) have "e \<in> set (deps_of g t)" by auto
    with V have "e \<in> V" by (auto simp: dep_closed_def)
    from dep_closed_below_subset[OF V(1) this] e show "x \<in> V" by auto
  qed
  have t_nB: "t \<notin> ?B"
  proof
    assume "t \<in> ?B"
    then obtain e where e: "e \<in> set ds" "t \<in> below g e" by blast
    with Cons.prems(2) have "e \<in> set (deps_of g t)" by auto
    from acyclic_not_below[OF ac this] e show False by simp
  qed
  have S1V: "?S1 \<subseteq> V" using Cons.prems(3) bV by simp
  have S1c: "dep_closed g ?S1" by (rule dep_closed_Un[OF Cons.prems(4) dep_closed_below])
  from Cons.prems(1) have "upd_spec g V upd d" by simp
  with Cons.prems(3,4,5) obtain db1 dcs where
    u: "upd db d = Some (db1, db1 (name d), dcs)"
    and fr1: "\<forall>n. n \<notin> name ` (below g d - S) \<longrightarrow> db1 n = db n"
    and mono1: "\<forall>n. db1 n = db n \<or> db1 n = Unknown"
    and ref1: "refreshed g db db1 (below g d - S)"
    and set1: "settled g db1 ?S1"
    unfolding upd_spec_def by blast
  have nt: "db1 (name t) = db (name t)"
  proof -
    have "name t \<notin> name ` (below g d - S)"
      by (rule inj_name_neq[OF V(2,3)]) (use bV t_nb in auto)
    with fr1 show ?thesis by simp
  qed
  have keepS: "db1 (name u) = db (name u)" if "u \<in> S" for u
  proof -
    have "name u \<notin> name ` (below g d - S)"
      by (rule inj_name_neq[OF V(2)]) (use bV that Cons.prems(3) in auto)
    with fr1 show ?thesis by simp
  qed
  define db2 where "db2 = (if needs_reset (db1 (name d)) then db1(name t := Unknown) else db1)"
  define cs2 where "cs2 = (if needs_reset (db1 (name d)) then cs @ dcs @ [Reset (name t)] else cs @ dcs)"
  have step: "update_deps upd t (d # ds) db (db (name t)) cs = update_deps upd t ds db2 (db2 (name t)) cs2"
    by (simp add: u db2_def cs2_def nt)
  have same_if_S: "db2 = db1" if "t \<in> S"
  proof (cases "needs_reset (db1 (name d))")
    case True
    with set1 that d_dep have "db1 (name t) = Unknown" by (auto simp: settled_def)
    then show ?thesis by (auto simp: db2_def)
  next
    case False
    then show ?thesis by (simp add: db2_def)
  qed
  have fr2: "db2 n = db1 n" if "n \<noteq> name t \<or> t \<in> S" for n
  proof (cases "t \<in> S")
    case True
    with same_if_S show ?thesis by simp
  next
    case False
    with that show ?thesis by (simp add: db2_def)
  qed
  have neq_t: "name u \<noteq> name t" if "u \<in> V" "u \<noteq> t" for u
    using that V(2,3) by (auto simp: inj_on_def)
  have set2: "settled g db2 ?S1"
  proof (cases "t \<in> S")
    case True
    with same_if_S set1 show ?thesis by simp
  next
    case False
    with t_nb have tS1: "t \<notin> ?S1" by simp
    have "name u \<noteq> name t" if "u \<in> ?S1" for u
      using that tS1 S1V V(2,3) by (auto simp: inj_on_def)
    moreover have "x \<in> ?S1" if "u \<in> ?S1" "x \<in> set (deps_of g u)" for u x
      using that S1c unfolding dep_closed_def by blast
    ultimately have "db2 (name u) = db1 (name u) \<and> (\<forall>x\<in>set (deps_of g u). db2 (name x) = db1 (name x))"
      if "u \<in> ?S1" for u
      using that fr2 by metis
    with set1 show ?thesis unfolding settled_def by metis
  qed
  have P2: "\<forall>d'\<in>insert d P. needs_reset (db2 (name d')) \<longrightarrow> db2 (name t) = Unknown"
  proof (cases "needs_reset (db1 (name d))")
    case True
    then show ?thesis by (simp add: db2_def)
  next
    case False
    then have e: "db2 = db1" by (simp add: db2_def)
    show ?thesis
    proof
      fix d' assume "d' \<in> insert d P"
      then show "needs_reset (db2 (name d')) \<longrightarrow> db2 (name t) = Unknown"
      proof
        assume "d' = d" with False e show ?thesis by simp
      next
        assume "d' \<in> P"
        with Cons.prems(6) have "d' \<in> S" by auto
        from keepS[OF this] Cons.prems(7) \<open>d' \<in> P\<close> nt e show ?thesis by auto
      qed
    qed
  qed
  have E2: "t \<notin> ?S1 \<longrightarrow> db2 (name t) =
              (if \<exists>d'\<in>insert d P. needs_reset (db2 (name d')) then Unknown else orig)"
  proof
    assume "t \<notin> ?S1"
    then have tS: "t \<notin> S" by simp
    have "d \<noteq> t" using t_nb below_refl[of d g] by auto
    from neq_t[OF dV this] have d_t: "name d \<noteq> name t" .
    have P_eq: "db2 (name d') = db (name d')" if "d' \<in> P" for d'
    proof -
      from that Cons.prems(6) have dS: "d' \<in> S" by auto
      with tS Cons.prems(3) have "d' \<in> V" "d' \<noteq> t" by auto
      then have "name d' \<noteq> name t" by (rule neq_t)
      then have "db2 (name d') = db1 (name d')" by (simp add: fr2)
      with keepS[OF dS] show ?thesis by simp
    qed
    have d_eq: "db2 (name d) = db1 (name d)" using d_t by (simp add: fr2)
    from Cons.prems(8) tS
    have E: "db (name t) = (if \<exists>d\<in>P. needs_reset (db (name d)) then Unknown else orig)" by simp
    show "db2 (name t) = (if \<exists>d'\<in>insert d P. needs_reset (db2 (name d')) then Unknown else orig)"
    proof (cases "needs_reset (db1 (name d))")
      case True
      then have "db2 (name t) = Unknown" by (simp add: db2_def)
      moreover from True d_eq have "\<exists>d'\<in>insert d P. needs_reset (db2 (name d'))" by simp
      ultimately show ?thesis by simp
    next
      case False
      then have "db2 (name t) = db (name t)" by (simp add: db2_def nt)
      moreover have "(\<exists>d'\<in>insert d P. needs_reset (db2 (name d'))) = (\<exists>d'\<in>P. needs_reset (db (name d')))"
        using False d_eq P_eq by auto
      ultimately show ?thesis using E by simp
    qed
  qed
  have mono2: "\<forall>n. db2 n = db n \<or> db2 n = Unknown"
    using mono1 by (auto simp: db2_def)
  have "\<exists>db' calls. update_deps upd t ds db2 (db2 (name t)) cs2 = Some (db', db' (name t), calls)
       \<and> (\<forall>n. n \<notin> name ` (insert t ?B - ?S1) \<longrightarrow> db' n = db2 n)
       \<and> (\<forall>n. db' n = db2 n \<or> db' n = Unknown)
       \<and> settled g db' (?S1 \<union> ?B)
       \<and> (\<forall>d\<in>insert d P \<union> set ds. needs_reset (db' (name d)) \<longrightarrow> db' (name t) = Unknown)
       \<and> refreshed g db2 db' (?B - ?S1)
       \<and> (t \<notin> ?S1 \<longrightarrow> db' (name t) =
            (if \<exists>d\<in>insert d P \<union> set ds. needs_reset (db' (name d)) then Unknown else orig))"
  proof (rule Cons.IH)
    show "\<forall>d\<in>set ds. upd_spec g V upd d" using Cons.prems(1) by simp
    show "set ds \<subseteq> set (deps_of g t)" using Cons.prems(2) by simp
    show "?S1 \<subseteq> V" by (rule S1V)
    show "dep_closed g ?S1" by (rule S1c)
    show "settled g db2 ?S1" by (rule set2)
    show "insert d P \<subseteq> ?S1" using Cons.prems(6) by auto
    show "\<forall>d\<in>insert d P. needs_reset (db2 (name d)) \<longrightarrow> db2 (name t) = Unknown" by (rule P2)
    show "t \<notin> ?S1 \<longrightarrow> db2 (name t) =
              (if \<exists>d'\<in>insert d P. needs_reset (db2 (name d')) then Unknown else orig)" by (rule E2)
  qed
  then obtain db' calls where
    r: "update_deps upd t ds db2 (db2 (name t)) cs2 = Some (db', db' (name t), calls)"
    and fr3: "\<forall>n. n \<notin> name ` (insert t ?B - ?S1) \<longrightarrow> db' n = db2 n"
    and mono3: "\<forall>n. db' n = db2 n \<or> db' n = Unknown"
    and set3: "settled g db' (?S1 \<union> ?B)"
    and P3: "\<forall>d\<in>insert d P \<union> set ds. needs_reset (db' (name d)) \<longrightarrow> db' (name t) = Unknown"
    and ref3: "refreshed g db2 db' (?B - ?S1)"
    and E3: "t \<notin> ?S1 \<longrightarrow> db' (name t) =
            (if \<exists>d\<in>insert d P \<union> set ds. needs_reset (db' (name d)) then Unknown else orig)"
    by blast
  have frame: "db' n = db n" if n: "n \<notin> name ` (insert t (\<Union>d\<in>set (d # ds). below g d) - S)" for n
  proof -
    from n have "n \<notin> name ` (insert t ?B - ?S1)" by auto
    with fr3 have "db' n = db2 n" by simp
    moreover from n have "n \<noteq> name t \<or> t \<in> S" by auto
    then have "db2 n = db1 n" by (rule fr2)
    moreover from n have "n \<notin> name ` (below g d - S)" by auto
    with fr1 have "db1 n = db n" by simp
    ultimately show ?thesis by simp
  qed
  have mono: "\<forall>n. db' n = db n \<or> db' n = Unknown"
    using mono2 mono3 by metis
  have in_b: "db' (name w) = db1 (name w)" if w: "w \<in> below g d" for w
  proof -
    from w bV have wV: "w \<in> V" by auto
    have "name w \<notin> name ` (insert t ?B - ?S1)"
      by (rule inj_name_neq[OF V(2) wV]) (use V(3) BV w in auto)
    with fr3 have "db' (name w) = db2 (name w)" by simp
    moreover from w t_nb have "w \<noteq> t" by auto
    from neq_t[OF wV this] have "db2 (name w) = db1 (name w)" by (simp add: fr2)
    ultimately show ?thesis by simp
  qed
  have refr: "refreshed g db db' ((\<Union>d\<in>set (d # ds). below g d) - S)"
    unfolding refreshed_def
  proof
    fix u assume uu: "u \<in> (\<Union>d\<in>set (d # ds). below g d) - S"
    show "db' (name u) =
        (if \<exists>x\<in>set (deps_of g u). needs_reset (db' (name x)) then Unknown else db (name u))"
    proof (cases "u \<in> below g d")
      case True
      with uu have m: "u \<in> below g d - S" by simp
      have "x \<in> below g d" if "x \<in> set (deps_of g u)" for x
        using dep_closed_below[of g d] True that unfolding dep_closed_def by blast
      then have "(\<exists>x\<in>set (deps_of g u). needs_reset (db' (name x)))
               = (\<exists>x\<in>set (deps_of g u). needs_reset (db1 (name x)))"
        using in_b by auto
      moreover from ref1 m have "db1 (name u) =
        (if \<exists>x\<in>set (deps_of g u). needs_reset (db1 (name x)) then Unknown else db (name u))"
        unfolding refreshed_def by blast
      ultimately show ?thesis using in_b[OF True] by simp
    next
      case False
      with uu have m: "u \<in> ?B - ?S1" by auto
      then have uV: "u \<in> V" using BV by auto
      from m t_nB have "u \<noteq> t" by auto
      from neq_t[OF uV this] have "db2 (name u) = db1 (name u)" by (simp add: fr2)
      moreover have "name u \<notin> name ` (below g d - S)"
        by (rule inj_name_neq[OF V(2) uV]) (use bV False in auto)
      with fr1 have "db1 (name u) = db (name u)" by simp
      moreover from ref3 m have "db' (name u) =
        (if \<exists>x\<in>set (deps_of g u). needs_reset (db' (name x)) then Unknown else db2 (name u))"
        unfolding refreshed_def by blast
      ultimately show ?thesis by simp
    qed
  qed
  have E: "t \<notin> S \<longrightarrow> db' (name t) =
            (if \<exists>d\<in>insert d P \<union> set ds. needs_reset (db' (name d)) then Unknown else orig)"
    using E3 t_nb by simp
  have sets: "S \<union> (\<Union>d\<in>set (d # ds). below g d) = ?S1 \<union> ?B"
    by auto
  have Ps: "P \<union> set (d # ds) = insert d P \<union> set ds" by auto
  have "update_deps upd t ds db2 (db2 (name t)) cs2 = Some (db', db' (name t), calls)
       \<and> (\<forall>n. n \<notin> name ` (insert t (\<Union>d\<in>set (d # ds). below g d) - S) \<longrightarrow> db' n = db n)
       \<and> (\<forall>n. db' n = db n \<or> db' n = Unknown)
       \<and> settled g db' (?S1 \<union> ?B)
       \<and> (\<forall>d\<in>insert d P \<union> set ds. needs_reset (db' (name d)) \<longrightarrow> db' (name t) = Unknown)
       \<and> refreshed g db db' ((\<Union>d\<in>set (d # ds). below g d) - S)
       \<and> (t \<notin> S \<longrightarrow> db' (name t) =
            (if \<exists>d\<in>insert d P \<union> set ds. needs_reset (db' (name d)) then Unknown else orig))"
    using r frame mono set3 P3 refr E by (intro conjI) blast+
  then show ?case
    unfolding step sets Ps by blast
qed

lemma update_state_settles:
  assumes ac: "acyclic (dep_rel g)" and rk: "topo rk g"
    and V: "dep_closed g V" "inj_on name V"
  shows "rk t < k \<Longrightarrow> t \<in> V \<Longrightarrow> upd_spec g V (update_state k g) t"
proof (induction k arbitrary: t)
  case 0
  then show ?case by simp
next
  case (Suc k)
  have deps_ok: "\<forall>d\<in>set (deps_of g t). upd_spec g V (update_state k g) d"
  proof
    fix d assume d: "d \<in> set (deps_of g t)"
    from topo_dep[OF rk d] Suc.prems(1) have "rk d < k" by simp
    moreover from d V(1) Suc.prems(2) have "d \<in> V" by (auto simp: dep_closed_def)
    ultimately show "upd_spec g V (update_state k g) d" by (rule Suc.IH)
  qed
  show ?case
    unfolding upd_spec_def
  proof (intro allI impI)
    fix db S assume S: "S \<subseteq> V" "dep_closed g S" "settled g db S"
    let ?B = "\<Union>d\<in>set (deps_of g t). below g d"
    have "\<exists>db' calls. update_deps (update_state k g) t (deps_of g t) db (db (name t)) []
             = Some (db', db' (name t), calls)
       \<and> (\<forall>n. n \<notin> name ` (insert t ?B - S) \<longrightarrow> db' n = db n)
       \<and> (\<forall>n. db' n = db n \<or> db' n = Unknown)
       \<and> settled g db' (S \<union> ?B)
       \<and> (\<forall>d\<in>{} \<union> set (deps_of g t). needs_reset (db' (name d)) \<longrightarrow> db' (name t) = Unknown)
       \<and> refreshed g db db' (?B - S)
       \<and> (t \<notin> S \<longrightarrow> db' (name t) =
            (if \<exists>d\<in>{} \<union> set (deps_of g t). needs_reset (db' (name d)) then Unknown
             else db (name t)))"
      by (rule update_deps_settles[OF ac V Suc.prems(2) deps_ok _ S]) auto
    then obtain db' calls where
      r: "update_deps (update_state k g) t (deps_of g t) db (db (name t)) []
            = Some (db', db' (name t), calls)"
      and fr: "\<forall>n. n \<notin> name ` (insert t ?B - S) \<longrightarrow> db' n = db n"
      and mono: "\<forall>n. db' n = db n \<or> db' n = Unknown"
      and st: "settled g db' (S \<union> ?B)"
      and P: "\<forall>d\<in>set (deps_of g t). needs_reset (db' (name d)) \<longrightarrow> db' (name t) = Unknown"
      and rf: "refreshed g db db' (?B - S)"
      and E: "t \<notin> S \<longrightarrow> db' (name t) =
            (if \<exists>d\<in>set (deps_of g t). needs_reset (db' (name d)) then Unknown else db (name t))"
      by auto
    have 1: "settled g db' (S \<union> below g t)"
      unfolding below_unfold[of g t] using st P by (auto simp: settled_def)
    have 2: "refreshed g db db' (below g t - S)"
      unfolding refreshed_def
    proof
      fix u assume u: "u \<in> below g t - S"
      then have "u = t \<or> u \<in> ?B - S" unfolding below_unfold[of g t] by auto
      then show "db' (name u) =
          (if \<exists>x\<in>set (deps_of g u). needs_reset (db' (name x)) then Unknown else db (name u))"
      proof
        assume "u = t"
        with u E show ?thesis by simp
      next
        assume "u \<in> ?B - S"
        with rf show ?thesis unfolding refreshed_def by blast
      qed
    qed
    have 3: "\<forall>n. n \<notin> name ` (below g t - S) \<longrightarrow> db' n = db n"
      unfolding below_unfold[of g t] using fr by auto
    from r have 4: "update_state (Suc k) g db t = Some (db', db' (name t), calls)" by simp
    from 4 3 mono 2 1
    show "\<exists>db' calls. update_state (Suc k) g db t = Some (db', db' (name t), calls)
            \<and> (\<forall>n. n \<notin> name ` (below g t - S) \<longrightarrow> db' n = db n)
            \<and> (\<forall>n. db' n = db n \<or> db' n = Unknown)
            \<and> refreshed g db db' (below g t - S)
            \<and> settled g db' (S \<union> below g t)"
      by blast
  qed
qed

lemma valid_graph_inj: "valid_graph g \<Longrightarrow> inj_on name (set (targets g))"
  by (simp add: valid_graph_def distinct_map)

lemma update_state_spec:
  assumes "valid_graph g" "topo rk g" "t \<in> set (targets g)" "rk t < k"
  shows "upd_spec g (set (targets g)) (update_state k g) t"
  using assms update_state_settles[of g rk "set (targets g)" t k]
  by (simp add: valid_graph_def distinct_map)

lemma update_state_settled_id:
  assumes "upd_spec g V upd t" "S \<subseteq> V" "dep_closed g S" "settled g db S" "t \<in> S"
  shows "\<exists>calls. upd db t = Some (db, db (name t), calls)"
proof -
  from assms obtain db' calls where r: "upd db t = Some (db', db' (name t), calls)"
    and fr: "\<forall>n. n \<notin> name ` (below g t - S) \<longrightarrow> db' n = db n"
    unfolding upd_spec_def by blast
  from dep_closed_below_subset[OF assms(3,5)] have "below g t - S = {}" by simp
  with fr have "db' = db" by auto
  with r show ?thesis by simp
qed

lemma settled_empty: "settled g db {}"
  by (simp add: settled_def)

lemma dep_closed_empty: "dep_closed g {}"
  by (simp add: dep_closed_def)

lemma needs_reset_iff: "needs_reset st \<longleftrightarrow> st \<in> {Failed, Killed, Cancelled, Unknown}"
  by (auto simp: needs_reset_def is_failed_def is_killed_def is_cancelled_def is_unknown_def)

text \<open>
  C6: on a graph with acyclic dependencies \<open>update_state t\<close> returns, and returns the state it
  leaves for \<open>t\<close> in the store.  It updates everything \<open>t\<close> depends on, directly or not, and
  each target after its own dependencies: in the store it leaves, every target \<open>u\<close> below \<open>t\<close>
  (\<open>t\<close> included) is \<open>Unknown\<close> if one of the dependencies of \<open>u\<close> is left \<open>Failed\<close>, \<open>Killed\<close>,
  \<open>Cancelled\<close> or \<open>Unknown\<close>, and keeps the state it had before the call otherwise; the record
  of a target that \<open>t\<close> does not depend on is not touched.  Every dependency is left updated:
  updating it again changes nothing in the store.
\<close>

theorem update_state_propagates_reset:
  assumes "valid_graph g" and "t \<in> set (targets g)"
  shows "\<exists>K. \<forall>k\<ge>K. \<exists>db' calls.
           update_state k g db t = Some (db', db' (name t), calls)
         \<and> (\<forall>u\<in>below g t. db' (name u) =
              (if \<exists>d\<in>set (deps_of g u). db' (name d) \<in> {Failed, Killed, Cancelled, Unknown}
               then Unknown else db (name u)))
         \<and> (\<forall>n. n \<notin> name ` below g t \<longrightarrow> db' n = db n)
         \<and> (\<forall>d\<in>set (deps_of g t). \<exists>c. update_state k g db' d = Some (db', db' (name d), c))
         \<and> (\<forall>d\<in>set (deps_of g t).
              db' (name d) \<in> {Failed, Killed, Cancelled, Unknown} \<longrightarrow> db' (name t) = Unknown)
         \<and> (\<forall>n. db' n = db n \<or> db' n = Unknown)"
proof -
  let ?V = "set (targets g)"
  from assms(1) have ac: "acyclic (dep_rel g)" and Vc: "dep_closed g ?V"
    by (simp_all add: valid_graph_def)
  from acyclic_rank[OF ac] obtain rk where rk: "topo rk g" by (auto simp: topo_def)
  show ?thesis
  proof (intro exI[of _ "Suc (rk t)"] allI impI)
    fix k assume "Suc (rk t) \<le> k"
    then have k: "rk t < k" by simp
    have spec: "upd_spec g ?V (update_state k g) t"
      by (rule update_state_spec[OF assms(1) rk assms(2) k])
    have "\<exists>db' calls. update_state k g db t = Some (db', db' (name t), calls)
            \<and> (\<forall>n. n \<notin> name ` (below g t - {}) \<longrightarrow> db' n = db n)
            \<and> (\<forall>n. db' n = db n \<or> db' n = Unknown)
            \<and> refreshed g db db' (below g t - {})
            \<and> settled g db' ({} \<union> below g t)"
      using spec settled_empty[of g db] dep_closed_empty[of g]
      unfolding upd_spec_def by blast
    then obtain db' calls where r: "update_state k g db t = Some (db', db' (name t), calls)"
      and fr: "\<forall>n. n \<notin> name ` below g t \<longrightarrow> db' n = db n"
      and mono: "\<forall>n. db' n = db n \<or> db' n = Unknown"
      and rf: "refreshed g db db' (below g t)"
      and st: "settled g db' (below g t)"
      by auto
    have bV: "below g t \<subseteq> ?V" by (rule dep_closed_below_subset[OF Vc assms(2)])
    have again: "\<exists>c. update_state k g db' d = Some (db', db' (name d), c)"
      if d: "d \<in> set (deps_of g t)" for d
    proof (rule update_state_settled_id[OF _ bV dep_closed_below st])
      from d Vc assms(2) have "d \<in> ?V" by (auto simp: dep_closed_def)
      moreover from topo_dep[OF rk d] k have "rk d < k" by simp
      ultimately show "upd_spec g ?V (update_state k g) d"
        by (rule update_state_spec[OF assms(1) rk])
      show "d \<in> below g t" using below_dep[OF d] by auto
    qed
    have reset: "db' (name t) = Unknown"
      if "d \<in> set (deps_of g t)" "db' (name d) \<in> {Failed, Killed, Cancelled, Unknown}" for d
      using st that unfolding settled_def needs_reset_iff by auto
    have exact: "\<forall>u\<in>below g t. db' (name u) =
              (if \<exists>d\<in>set (deps_of g u). db' (name d) \<in> {Failed, Killed, Cancelled, Unknown}
               then Unknown else db (name u))"
      using rf unfolding refreshed_def needs_reset_iff by blast
    from r exact fr again reset mono
    show "\<exists>db' calls.
           update_state k g db t = Some (db', db' (name t), calls)
         \<and> (\<forall>u\<in>below g t. db' (name u) =
              (if \<exists>d\<in>set (deps_of g u). db' (name d) \<in> {Failed, Killed, Cancelled, Unknown}
               then Unknown else db (name u)))
         \<and> (\<forall>n. n \<notin> name ` below g t \<longrightarrow> db' n = db n)
         \<and> (\<forall>d\<in>set (deps_of g t). \<exists>c. update_state k g db' d = Some (db', db' (name d), c))
         \<and> (\<forall>d\<in>set (deps_of g t).
              db' (name d) \<in> {Failed, Killed, Cancelled, Unknown} \<longrightarrow> db' (name t) = Unknown)
         \<and> (\<forall>n. db' n = db n \<or> db' n = Unknown)"
      by blast
  qed
qed

lemma chain_targets: "targets chain_graph = [tA, tB, tC]"
  by (simp add: chain_graph_def)

lemma chain_valid: "valid_graph chain_graph"
  unfolding valid_graph_def
proof (intro conjI)
  show "acyclic (dep_rel chain_graph)" by (rule chain_acyclic)
  show "dep_closed chain_graph (set (targets chain_graph))"
    by (auto simp: dep_closed_def chain_deps chain_targets split: if_splits)
  show "distinct (map name (targets chain_graph))"
    by (simp add: chain_graph_def tA_def tB_def tC_def)
qed

lemma chain_below:
  "below chain_graph tA = {tA}" "below chain_graph tB = {tA, tB}"
  "below chain_graph tC = {tA, tB, tC}"
proof -
  show a: "below chain_graph tA = {tA}"
    by (subst below_unfold) (simp add: chain_deps chain_targets_distinct)
  show b: "below chain_graph tB = {tA, tB}"
    by (subst below_unfold) (auto simp: chain_deps chain_targets_distinct a)
  show "below chain_graph tC = {tA, tB, tC}"
    by (subst below_unfold) (auto simp: chain_deps chain_targets_distinct b)
qed

theorem update_state_propagates_reset_witness:
  "valid_graph chain_graph \<and> tC \<in> set (targets chain_graph)
   \<and> (\<exists>K. \<forall>k\<ge>K. \<exists>calls.
        update_state k chain_graph ((\<lambda>n. Completed)(''A'' := Failed, ''D'' := Running)) tC
          = Some ((\<lambda>n. Completed)(''A'' := Failed, ''D'' := Running, ''B'' := Unknown, ''C'' := Unknown),
                  Unknown, calls))"
proof -
  let ?db = "(\<lambda>n. Completed)(''A'' := Failed, ''D'' := Running)"
  let ?r = "(\<lambda>n. Completed)(''A'' := Failed, ''D'' := Running, ''B'' := Unknown, ''C'' := Unknown)"
  have v: "valid_graph chain_graph" by (rule chain_valid)
  have m: "tC \<in> set (targets chain_graph)" by (simp add: chain_targets)
  from update_state_propagates_reset[OF v m, of ?db]
  obtain K where K: "\<forall>k\<ge>K. \<exists>db' calls.
           update_state k chain_graph ?db tC = Some (db', db' (name tC), calls)
         \<and> (\<forall>u\<in>below chain_graph tC. db' (name u) =
              (if \<exists>d\<in>set (deps_of chain_graph u). db' (name d) \<in> {Failed, Killed, Cancelled, Unknown}
               then Unknown else ?db (name u)))
         \<and> (\<forall>n. n \<notin> name ` below chain_graph tC \<longrightarrow> db' n = ?db n)
         \<and> (\<forall>d\<in>set (deps_of chain_graph tC).
               \<exists>c. update_state k chain_graph db' d = Some (db', db' (name d), c))
         \<and> (\<forall>d\<in>set (deps_of chain_graph tC).
              db' (name d) \<in> {Failed, Killed, Cancelled, Unknown} \<longrightarrow> db' (name tC) = Unknown)
         \<and> (\<forall>n. db' n = ?db n \<or> db' n = Unknown)"
    by (rule exE)
  have "\<exists>calls. update_state k chain_graph ?db tC = Some (?r, Unknown, calls)" if "k \<ge> K" for k
  proof -
    from K[rule_format, OF that] obtain db' calls where all:
          "update_state k chain_graph ?db tC = Some (db', db' (name tC), calls)
         \<and> (\<forall>u\<in>below chain_graph tC. db' (name u) =
              (if \<exists>d\<in>set (deps_of chain_graph u). db' (name d) \<in> {Failed, Killed, Cancelled, Unknown}
               then Unknown else ?db (name u)))
         \<and> (\<forall>n. n \<notin> name ` below chain_graph tC \<longrightarrow> db' n = ?db n)
         \<and> (\<forall>d\<in>set (deps_of chain_graph tC).
               \<exists>c. update_state k chain_graph db' d = Some (db', db' (name d), c))
         \<and> (\<forall>d\<in>set (deps_of chain_graph tC).
              db' (name d) \<in> {Failed, Killed, Cancelled, Unknown} \<longrightarrow> db' (name tC) = Unknown)
         \<and> (\<forall>n. db' n = ?db n \<or> db' n = Unknown)"
      by (elim exE) (rule that)
    note r = all[THEN conjunct1]
    note ex = all[THEN conjunct2, THEN conjunct1]
    note fr = all[THEN conjunct2, THEN conjunct2, THEN conjunct1]
    have "db' (name tA) = ?db (name tA)"
      using ex[rule_format, of tA] by (simp add: chain_below chain_deps chain_targets_distinct)
    then have a: "db' ''A'' = Failed" by (simp add: tA_def)
    have "db' (name tB) = (if db' (name tA) \<in> {Failed, Killed, Cancelled, Unknown}
        then Unknown else ?db (name tB))"
      using ex[rule_format, of tB] by (simp add: chain_below chain_deps chain_targets_distinct)
    with a have b: "db' ''B'' = Unknown" by (simp add: tA_def tB_def)
    have "db' (name tC) = (if db' (name tB) \<in> {Failed, Killed, Cancelled, Unknown}
        then Unknown else ?db (name tC))"
      using ex[rule_format, of tC] by (simp add: chain_below chain_deps chain_targets_distinct)
    with b have c: "db' ''C'' = Unknown" by (simp add: tB_def tC_def)
    have "db' n = ?r n" for n
    proof (cases "n \<in> {''A'', ''B'', ''C''}")
      case True
      with a b c show ?thesis by auto
    next
      case False
      have "name ` below chain_graph tC = {''A'', ''B'', ''C''}"
        by (simp add: chain_below) (simp add: tA_def tB_def tC_def)
      with False have "n \<notin> name ` below chain_graph tC" by simp
      with fr have "db' n = ?db n" by simp
      with False show ?thesis by simp
    qed
    then have "db' = ?r" by (rule ext)
    with r c show ?thesis by (simp add: tC_def)
  qed
  with v m show ?thesis by blast
qed

section \<open>More depth never changes a result\<close>



lemma fuel_mono:
  assumes "\<And>k. f k = Some r \<Longrightarrow> f (Suc k) = Some r" and "f k = Some r" and "k \<le> k'"
  shows "f k' = Some r"
  using assms(3,2) by (induction rule: dec_induct) (auto intro: assms(1))

lemma update_deps_mono:
  "(\<And>db d r. d \<in> set ds \<Longrightarrow> f db d = Some r \<Longrightarrow> f' db d = Some r) \<Longrightarrow>
   update_deps f t ds db st cs = Some r \<Longrightarrow> update_deps f' t ds db st cs = Some r"
proof (induction ds arbitrary: db st cs)
  case Nil
  then show ?case by simp
next
  case (Cons d ds)
  from Cons.prems(2) obtain db' dst dcs where u: "f db d = Some (db', dst, dcs)"
    by (auto split: option.splits)
  with Cons.prems(1) have u': "f' db d = Some (db', dst, dcs)" by simp
  have IH: "update_deps f t ds dbx stx csx = Some r \<Longrightarrow> update_deps f' t ds dbx stx csx = Some r"
    for dbx stx csx
    by (rule Cons.IH) (use Cons.prems(1) in auto)
  from Cons.prems(2) u u' IH show ?case by (auto split: if_splits)
qed

lemma update_state_mono_Suc:
  "update_state k g db t = Some r \<Longrightarrow> update_state (Suc k) g db t = Some r"
proof (induction k arbitrary: db t r)
  case 0
  then show ?case by simp
next
  case (Suc k)
  from Suc.prems have "update_deps (update_state k g) t (deps_of g t) db (db (name t)) [] = Some r"
    by simp
  then have "update_deps (update_state (Suc k) g) t (deps_of g t) db (db (name t)) [] = Some r"
    by (rule update_deps_mono[rotated]) (rule Suc.IH)
  then show ?case by simp
qed

lemma update_state_mono:
  assumes "update_state k g db t = Some r" and "k \<le> k'"
  shows "update_state k' g db t = Some r"
proof (rule fuel_mono[where f = "\<lambda>k. update_state k g db t", OF _ assms])
  fix j assume "update_state j g db t = Some r"
  then show "update_state (Suc j) g db t = Some r" by (rule update_state_mono_Suc)
qed

lemma any_dep_should_run_mono:
  "(\<And>d r. d \<in> set ds \<Longrightarrow> f d = Some r \<Longrightarrow> f' d = Some r) \<Longrightarrow>
   any_dep_should_run f ds = Some r \<Longrightarrow> any_dep_should_run f' ds = Some r"
proof (induction ds)
  case Nil
  then show ?case by simp
next
  case (Cons d ds)
  from Cons.prems(2) obtain x where u: "f d = Some x" by (auto split: option.splits)
  with Cons.prems(1) have u': "f' d = Some x" by simp
  have IH: "any_dep_should_run f ds = Some r \<Longrightarrow> any_dep_should_run f' ds = Some r"
    by (rule Cons.IH) (use Cons.prems(1) in auto)
  from Cons.prems(2) u u' IH show ?case by (auto split: sum.splits if_splits)
qed

lemma should_run_mono_Suc:
  "should_run k g fc t = Some r \<Longrightarrow> should_run (Suc k) g fc t = Some r"
proof (induction k arbitrary: t r)
  case 0
  then show ?case by simp
next
  case (Suc k)
  from Suc.prems obtain x where x: "any_dep_should_run (should_run k g fc) (deps_of g t) = Some x"
    by (auto split: option.splits)
  then have "any_dep_should_run (should_run (Suc k) g fc) (deps_of g t) = Some x"
    by (rule any_dep_should_run_mono[rotated]) (rule Suc.IH)
  with Suc.prems x show ?case by simp
qed

lemma should_run_mono:
  assumes "should_run k g fc t = Some r" and "k \<le> k'"
  shows "should_run k' g fc t = Some r"
proof (rule fuel_mono[where f = "\<lambda>k. should_run k g fc t", OF _ assms])
  fix j assume "should_run j g fc t = Some r"
  then show "should_run (Suc j) g fc t = Some r" by (rule should_run_mono_Suc)
qed

lemma status_mono:
  "status k s t = Some r \<Longrightarrow> k \<le> k' \<Longrightarrow> status k' s t = Some r"
proof -
  assume a: "status k s t = Some r" and le: "k \<le> k'"
  from a obtain db' st cs where u: "update_state k (graph s) (state_db s) t = Some (db', st, cs)"
    by (auto simp: status_def split: option.splits)
  with a obtain x where x: "should_run k (graph s) (file_cache s) t = Some x"
    by (auto simp: status_def split: option.splits)
  from update_state_mono[OF u le] should_run_mono[OF x le] a u x
  show ?thesis by (simp add: status_def)
qed

lemma must_run_mono:
  "must_run k s t sd = Some r \<Longrightarrow> k \<le> k' \<Longrightarrow> must_run k' s t sd = Some r"
proof -
  assume a: "must_run k s t sd = Some r" and le: "k \<le> k'"
  show ?thesis
  proof (cases "sd = {}")
    case True
    with a obtain x where x: "status k s t = Some x"
      by (auto simp: must_run_def split: option.splits)
    from status_mono[OF x le] a x True show ?thesis by (simp add: must_run_def)
  next
    case False
    with a show ?thesis by (simp add: must_run_def)
  qed
qed

lemma schedule_deps_mono:
  "(\<And>s d r. d \<in> set ds \<Longrightarrow> f s d = Some r \<Longrightarrow> f' s d = Some r) \<Longrightarrow>
   schedule_deps f ds sd s = Some r \<Longrightarrow> schedule_deps f' ds sd s = Some r"
proof (induction ds arbitrary: sd s)
  case Nil
  then show ?case by simp
next
  case (Cons d ds)
  from Cons.prems(2) obtain x where u: "f s d = Some x" by (auto split: option.splits)
  with Cons.prems(1) have u': "f' s d = Some x" by simp
  have IH: "schedule_deps f ds sdx sx = Some r \<Longrightarrow> schedule_deps f' ds sdx sx = Some r" for sdx sx
    by (rule Cons.IH) (use Cons.prems(1) in auto)
  from Cons.prems(2) u u' IH show ?case by (auto split: sum.splits)
qed

lemma schedule_mono_Suc:
  "schedule k s t = Some r \<Longrightarrow> schedule (Suc k) s t = Some r"
proof (induction k arbitrary: s t r)
  case 0
  then show ?case by simp
next
  case (Suc k)
  from Suc.prems obtain x where st: "status k (enter_schedule s t) t = Some x"
    by (auto split: option.splits)
  then have st': "status (Suc k) (enter_schedule s t) t = Some x"
    by (rule status_mono) simp
  show ?case
  proof (cases x)
    case (Inl e)
    with Suc.prems st st' show ?thesis by simp
  next
    case (Inr p)
    obtain sv s1 where p: "p = (sv, s1)" by (cases p)
    show ?thesis
    proof (cases "sv = Some SUBMITTED \<or> t \<in> pretend_known s1")
      case True
      with Suc.prems st st' Inr p show ?thesis by simp
    next
      case False
      let ?ds = "sort_key name (deps_of (graph s1) t)"
      from Suc.prems st Inr p False obtain y where
        l: "schedule_deps (schedule k) ?ds {} s1 = Some y"
        by (auto split: option.splits)
      then have l': "schedule_deps (schedule (Suc k)) ?ds {} s1 = Some y"
        by (rule schedule_deps_mono[rotated]) (rule Suc.IH)
      show ?thesis
      proof (cases y)
        case (Inl e)
        with Suc.prems st st' Inr p False l l' show ?thesis by simp
      next
        case (Inr q)
        obtain sd s2 where q: "q = (sd, s2)" by (cases q)
        from Suc.prems st \<open>x = Inr p\<close> p False l Inr q obtain z where
          m: "must_run k s2 t sd = Some z"
          by (auto split: option.splits)
        then have m': "must_run (Suc k) s2 t sd = Some z"
          by (rule must_run_mono) simp
        from Suc.prems st st' \<open>x = Inr p\<close> p False l l' Inr q m m' show ?thesis
          by simp
      qed
    qed
  qed
qed

lemma schedule_mono:
  assumes "schedule k s t = Some r" and "k \<le> k'"
  shows "schedule k' s t = Some r"
proof (rule fuel_mono[where f = "\<lambda>k. schedule k s t", OF _ assms])
  fix j assume "schedule j s t = Some r"
  then show "schedule (Suc j) s t = Some r" by (rule schedule_mono_Suc)
qed

lemma schedule_each_mono:
  "(\<And>s d r. d \<in> set ts \<Longrightarrow> f s d = Some r \<Longrightarrow> f' s d = Some r) \<Longrightarrow>
   schedule_each f ts s = Some r \<Longrightarrow> schedule_each f' ts s = Some r"
proof (induction ts arbitrary: s r)
  case Nil
  then show ?case by simp
next
  case (Cons d ds)
  from Cons.prems(2) obtain x where u: "f s d = Some x" by (auto split: option.splits)
  with Cons.prems(1) have u': "f' s d = Some x" by simp
  have IH: "schedule_each f ds sx = Some rx \<Longrightarrow> schedule_each f' ds sx = Some rx" for sx rx
    by (rule Cons.IH) (use Cons.prems(1) in auto)
  from Cons.prems(2) u u' show ?case
    by (auto split: sum.splits option.splits dest!: IH)
qed

lemma schedule_many_mono:
  "schedule_many k s ts = Some r \<Longrightarrow> k \<le> k' \<Longrightarrow> schedule_many k' s ts = Some r"
  unfolding schedule_many_def
  by (erule schedule_each_mono[rotated]) (auto intro: schedule_mono)

section \<open>What a call of schedule changes\<close>

lemma same_config_refl [simp]: "same_config s s"
  by (simp add: same_config_def)

lemma same_config_trans: "same_config s s1 \<Longrightarrow> same_config s1 s2 \<Longrightarrow> same_config s s2"
  by (simp add: same_config_def)

lemma extends_in_refl [simp]: "extends_in s B s"
  by (simp add: extends_in_def)

lemma extends_in_mono:
  assumes "extends_in s A s'" "A \<subseteq> B"
  shows "extends_in s B s'"
proof -
  from assms(1) obtain new where "trace s' = trace s @ new" "event_target ` set new \<subseteq> A"
    by (auto simp: extends_in_def)
  with assms(2) have "\<exists>new. trace s' = trace s @ new \<and> event_target ` set new \<subseteq> B"
    by (intro exI[of _ new]) auto
  moreover from assms have "pretend_known s' \<subseteq> pretend_known s \<union> B"
    by (auto simp: extends_in_def)
  ultimately show ?thesis using assms(1) by (simp add: extends_in_def)
qed

lemma extends_in_trans:
  assumes "extends_in s B s1" "extends_in s1 B s2"
  shows "extends_in s B s2"
proof -
  from assms(1) obtain n1 where n1: "trace s1 = trace s @ n1" "event_target ` set n1 \<subseteq> B"
    by (auto simp: extends_in_def)
  from assms(2) obtain n2 where n2: "trace s2 = trace s1 @ n2" "event_target ` set n2 \<subseteq> B"
    by (auto simp: extends_in_def)
  from n1 n2 have "trace s2 = trace s @ (n1 @ n2)" "event_target ` set (n1 @ n2) \<subseteq> B"
    by auto
  then have tr: "\<exists>new. trace s2 = trace s @ new \<and> event_target ` set new \<subseteq> B" by blast
  from assms have "same_config s s1" "same_config s1 s2"
    by (simp_all add: extends_in_def)
  then have c: "same_config s s2" by (rule same_config_trans)
  from assms have p: "pretend_known s \<subseteq> pretend_known s2"
    "pretend_known s2 \<subseteq> pretend_known s \<union> B"
    by (auto simp: extends_in_def)
  from tr c p show ?thesis by (simp add: extends_in_def)
qed

lemma status_result:
  "status k s t = Some (Inr (sv, s1)) \<Longrightarrow> \<exists>db' cs. s1 = s\<lparr>state_db := db', meta_calls := cs\<rparr>"
  by (auto simp: status_def split: option.splits sum.splits intro!: exI)

lemma extends_in_db [simp]: "extends_in s B (s\<lparr>state_db := db', meta_calls := cs\<rparr>)"
  by (simp add: extends_in_def same_config_def)

lemma status_extends: "status k s t = Some (Inr (sv, s1)) \<Longrightarrow> extends_in s B s1"
  by (auto dest: status_result)

lemma must_run_extends: "must_run k s t sd = Some (Inr (m, s1)) \<Longrightarrow> extends_in s B s1"
  by (auto simp: must_run_def split: if_splits option.splits sum.splits
      intro: status_extends)

lemma enter_schedule_extends: "t \<in> B \<Longrightarrow> extends_in s B (enter_schedule s t)"
  by (simp add: extends_in_def enter_schedule_def same_config_def)

lemma submit_extends: "t \<in> B \<Longrightarrow> extends_in s B (submit s t sd)"
  by (auto simp: extends_in_def submit_def same_config_def)

lemma extends_in_graph: "extends_in s B s' \<Longrightarrow> graph s' = graph s"
  by (simp add: extends_in_def same_config_def)

lemma schedule_deps_extends:
  assumes "\<And>d s b s'. d \<in> set ds \<Longrightarrow> graph s = g \<Longrightarrow> sch s d = Some (Inr (b, s'))
             \<Longrightarrow> extends_in s (below g d) s'"
  shows "graph s = g \<Longrightarrow> schedule_deps sch ds sd s = Some (Inr (sd', s'))
     \<Longrightarrow> extends_in s (\<Union>d\<in>set ds. below g d) s'"
  using assms
proof (induction ds arbitrary: s sd)
  case Nil
  then show ?case by simp
next
  case (Cons d ds)
  from Cons.prems(2) obtain b s1 where d: "sch s d = Some (Inr (b, s1))"
    and rest: "schedule_deps sch ds (if b then insert d sd else sd) s1 = Some (Inr (sd', s'))"
    by (auto split: option.splits sum.splits)
  from Cons.prems(3)[OF _ Cons.prems(1) d] have e1: "extends_in s (below g d) s1" by simp
  then have g1: "graph s1 = g" using Cons.prems(1) by (simp add: extends_in_graph)
  have e2: "extends_in s1 (\<Union>d\<in>set ds. below g d) s'"
    by (rule Cons.IH[OF g1 rest]) (use Cons.prems(3) in auto)
  show ?case
    by (rule extends_in_trans[OF extends_in_mono[OF e1] extends_in_mono[OF e2]]) auto
qed

lemma schedule_SucE:
  assumes "schedule (Suc k) s t = Some (Inr (b, s'))"
  obtains (gate) sv s1 where
      "status k (enter_schedule s t) t = Some (Inr (sv, s1))"
      "sv = Some SUBMITTED \<or> t \<in> pretend_known s1" "b" "s' = s1"
  | (run) sv s1 sd s2 m s3 where
      "status k (enter_schedule s t) t = Some (Inr (sv, s1))"
      "\<not> (sv = Some SUBMITTED \<or> t \<in> pretend_known s1)"
      "schedule_deps (schedule k) (sort_key name (deps_of (graph s1) t)) {} s1 = Some (Inr (sd, s2))"
      "must_run k s2 t sd = Some (Inr (m, s3))"
      "b = m" "s' = (if m then submit s3 t sd else s3)"
proof -
  from assms obtain sv s1 where st: "status k (enter_schedule s t) t = Some (Inr (sv, s1))"
    by (simp split: option.splits sum.splits prod.splits)
  show thesis
  proof (cases "sv = Some SUBMITTED \<or> t \<in> pretend_known s1")
    case True
    with assms st have "b" "s' = s1" by simp_all
    with st True show thesis by (rule gate)
  next
    case False
    with assms st obtain sd s2 where
      l: "schedule_deps (schedule k) (sort_key name (deps_of (graph s1) t)) {} s1 = Some (Inr (sd, s2))"
      by (simp split: option.splits sum.splits prod.splits)
    with assms st False obtain m s3 where m: "must_run k s2 t sd = Some (Inr (m, s3))"
      by (simp split: option.splits sum.splits prod.splits)
    with assms st False l have "b = m" "s' = (if m then submit s3 t sd else s3)"
      by (simp_all split: if_splits)
    with st False l m show thesis by (rule run)
  qed
qed

lemma schedule_extends:
  "schedule k s t = Some (Inr (b, s')) \<Longrightarrow> extends_in s (below (graph s) t) s'"
proof (induction k arbitrary: s t b s')
  case 0
  then show ?case by simp
next
  case (Suc k)
  let ?g = "graph s" and ?B = "below (graph s) t"
  let ?s0 = "enter_schedule s t"
  have e0: "extends_in s ?B ?s0" by (simp add: enter_schedule_extends)
  from Suc.prems show ?case
  proof (cases rule: schedule_SucE)
    case (gate sv s1)
    have "extends_in ?s0 ?B s1" by (rule status_extends[OF gate(1)])
    with e0 gate(4) show ?thesis using extends_in_trans by blast
  next
    case (run sv s1 sd s2 m s3)
    have e1: "extends_in ?s0 ?B s1" by (rule status_extends[OF run(1)])
    have e01: "extends_in s ?B s1" by (rule extends_in_trans[OF e0 e1])
    then have g1: "graph s1 = ?g" by (rule extends_in_graph)
    let ?ds = "sort_key name (deps_of ?g t)"
    have IH: "extends_in sx (below ?g d) sx'"
      if "graph sx = ?g" "schedule k sx d = Some (Inr (bx, sx'))" for sx d bx sx'
      using Suc.IH[OF that(2)] that(1) by simp
    have "extends_in s1 (\<Union>d\<in>set ?ds. below ?g d) s2"
      by (rule schedule_deps_extends[OF _ g1 run(3)[unfolded g1]]) (rule IH)
    moreover have "(\<Union>d\<in>set ?ds. below ?g d) \<subseteq> ?B"
      using below_dep[of _ ?g t] by auto
    ultimately have e2: "extends_in s1 ?B s2" by (rule extends_in_mono)
    have e3: "extends_in s2 ?B s3" by (rule must_run_extends[OF run(4)])
    have e03: "extends_in s ?B s3"
      by (rule extends_in_trans[OF e01 extends_in_trans[OF e2 e3]])
    show ?thesis
    proof (cases m)
      case True
      have "extends_in s3 ?B (submit s3 t sd)" by (rule submit_extends) simp
      with e03 True run(6) show ?thesis using extends_in_trans by auto
    next
      case False
      with e03 run(6) show ?thesis by simp
    qed
  qed
qed

section \<open>schedule returns; when it returns true\<close>

lemma status_returns:
  "topo rk (graph s) \<Longrightarrow> rk t < k \<Longrightarrow> \<exists>r. status k s t = Some r"
proof -
  assume rk: "topo rk (graph s)" and k: "rk t < k"
  from update_state_returns[OF rk k] obtain db' st
    where "update_state k (graph s) (state_db s) t = Some (db', st)" by fastforce
  moreover from should_run_returns[OF rk k] obtain r
    where "should_run k (graph s) (file_cache s) t = Some r" by blast
  ultimately show ?thesis by (cases r; cases st) (simp_all add: status_def)
qed

lemma must_run_returns:
  "topo rk (graph s) \<Longrightarrow> rk t < k \<Longrightarrow> \<exists>r. must_run k s t sd = Some r"
  using status_returns[of rk s t k]
  by (auto simp: must_run_def split: option.splits sum.splits)

lemma schedule_deps_returns:
  assumes "\<And>d s. d \<in> set ds \<Longrightarrow> graph s = g \<Longrightarrow> \<exists>r. sch s d = Some r"
    and "\<And>d s b s'. d \<in> set ds \<Longrightarrow> sch s d = Some (Inr (b, s')) \<Longrightarrow> graph s' = graph s"
  shows "graph s = g \<Longrightarrow> \<exists>r. schedule_deps sch ds sd s = Some r"
  using assms
proof (induction ds arbitrary: s sd)
  case Nil
  then show ?case by simp
next
  case (Cons d ds)
  from Cons.prems(2)[OF _ Cons.prems(1)] obtain r where r: "sch s d = Some r" by auto
  show ?case
  proof (cases r)
    case (Inl e)
    with r show ?thesis by simp
  next
    case (Inr p)
    obtain b s1 where p: "p = (b, s1)" by (cases p)
    from Cons.prems(3)[OF _ r[unfolded Inr p]] Cons.prems(1) have g1: "graph s1 = g" by simp
    have "\<exists>r. schedule_deps sch ds (if b then insert d sd else sd) s1 = Some r"
    proof (rule Cons.IH[OF g1])
      show "\<And>d' s. d' \<in> set ds \<Longrightarrow> graph s = g \<Longrightarrow> \<exists>r. sch s d' = Some r"
        using Cons.prems(2) by simp
      show "\<And>d' s b s'. d' \<in> set ds \<Longrightarrow> sch s d' = Some (Inr (b, s')) \<Longrightarrow> graph s' = graph s"
        using Cons.prems(3) by (meson list.set_intros(2))
    qed
    with r Inr p show ?thesis by simp
  qed
qed

lemma schedule_extends_g:
  "graph s = g \<Longrightarrow> schedule k s d = Some (Inr (b, s')) \<Longrightarrow> extends_in s (below g d) s'"
  by (drule schedule_extends) simp

lemma schedule_graph:
  "schedule k s t = Some (Inr (b, s')) \<Longrightarrow> graph s' = graph s"
  by (drule schedule_extends) (rule extends_in_graph)

lemma schedule_returns:
  "topo rk g \<Longrightarrow> graph s = g \<Longrightarrow> rk t < k \<Longrightarrow> \<exists>r. schedule (Suc k) s t = Some r"
proof (induction k arbitrary: s t)
  case 0
  then show ?case by simp
next
  case (Suc k)
  let ?s0 = "enter_schedule s t"
  have g0: "graph ?s0 = g" using Suc.prems(2) by (simp add: enter_schedule_def)
  from status_returns[of rk ?s0 t "Suc k"] Suc.prems(1,3) g0
  obtain r where r: "status (Suc k) ?s0 t = Some r" by auto
  show ?case
  proof (cases r)
    case (Inl e)
    with r show ?thesis by simp
  next
    case (Inr p)
    obtain sv s1 where p: "p = (sv, s1)" by (cases p)
    from status_result[OF r[unfolded Inr p]] g0 have g1: "graph s1 = g" by auto
    show ?thesis
    proof (cases "sv = Some SUBMITTED \<or> t \<in> pretend_known s1")
      case True
      with r Inr p show ?thesis by simp
    next
      case False
      let ?ds = "sort_key name (deps_of g t)"
      have "\<exists>r. schedule_deps (schedule (Suc k)) ?ds {} s1 = Some r"
      proof (rule schedule_deps_returns[OF _ _ g1])
        fix d and sx :: scheduler assume d: "d \<in> set ?ds" and gx: "graph sx = g"
        from d topo_dep[OF Suc.prems(1), of d t] Suc.prems(3) have "rk d < k" by simp
        from Suc.IH[OF Suc.prems(1) gx this] show "\<exists>r. schedule (Suc k) sx d = Some r" .
      next
        fix d and sx sx' :: scheduler and b
        assume "schedule (Suc k) sx d = Some (Inr (b, sx'))"
        then show "graph sx' = graph sx" by (rule schedule_graph)
      qed
      then obtain y where l: "schedule_deps (schedule (Suc k)) ?ds {} s1 = Some y" by blast
      show ?thesis
      proof (cases y)
        case (Inl e)
        with r \<open>r = Inr p\<close> p False l g1 show ?thesis by simp
      next
        case (Inr q)
        obtain sd s2 where q: "q = (sd, s2)" by (cases q)
        have "extends_in s1 (\<Union>d\<in>set ?ds. below g d) s2"
          by (rule schedule_deps_extends[OF _ g1 l[unfolded Inr q]])
             (rule schedule_extends_g; assumption)
        then have g2: "graph s2 = g" using g1 by (simp add: extends_in_graph)
        from must_run_returns[of rk s2 t "Suc k" sd] Suc.prems(1,3) g2
        obtain z where "must_run (Suc k) s2 t sd = Some z" by auto
        with r \<open>r = Inr p\<close> p False l g1 Inr q show ?thesis
          by (cases z) (auto split: prod.splits)
      qed
    qed
  qed
qed

lemma submissions_append [simp]: "submissions (xs @ ys) = submissions xs @ submissions ys"
  by (simp add: submissions_def)

lemma submissions_simps [simp]:
  "submissions [] = []"
  "submissions (Scheduling t # tr) = submissions tr"
  "submissions (Submit t ds # tr) = t # submissions tr"
  "submissions (WouldSubmit t # tr) = t # submissions tr"
  by (simp_all add: submissions_def)

lemma submissions_subset: "set (submissions tr) \<subseteq> event_target ` set tr"
  by (auto simp: submissions_def)

lemma status_trace: "status k s t = Some (Inr (sv, s1)) \<Longrightarrow> trace s1 = trace s \<and> pretend_known s1 = pretend_known s"
  by (auto dest: status_result)

lemma must_run_trace: "must_run k s t sd = Some (Inr (m, s1)) \<Longrightarrow> trace s1 = trace s \<and> pretend_known s1 = pretend_known s"
  by (auto simp: must_run_def split: if_splits option.splits sum.splits dest: status_trace)

lemma submit_trace: "\<exists>e. trace (submit s t sd) = trace s @ [e] \<and> is_submission e \<and> event_target e = t"
  by (simp add: submit_def)

lemma schedule_true_iff_run:
  assumes ac: "acyclic (dep_rel (graph s))"
    and r: "schedule (Suc k) s t = Some (Inr (b, s'))"
  shows "\<exists>sv s1 new. status k (enter_schedule s t) t = Some (Inr (sv, s1))
           \<and> trace s' = trace s @ Scheduling t # new
           \<and> (b \<longleftrightarrow> (sv = Some SUBMITTED \<or> t \<in> pretend_known s) \<or> t \<in> set (submissions new))
           \<and> (sv = Some SUBMITTED \<or> t \<in> pretend_known s \<longrightarrow> new = [] \<and> s' = s1)"
  using r
proof (cases rule: schedule_SucE)
  case (gate sv s1)
  from status_trace[OF gate(1)]
  have "trace s1 = trace s @ [Scheduling t]" "pretend_known s1 = pretend_known s"
    by (simp_all add: enter_schedule_def)
  with gate show ?thesis by auto
next
  case (run sv s1 sd s2 m s3)
  let ?g = "graph s"
  from status_trace[OF run(1)]
  have t1: "trace s1 = trace s @ [Scheduling t]" and p1: "pretend_known s1 = pretend_known s"
    by (simp_all add: enter_schedule_def)
  from status_result[OF run(1)] have g1: "graph s1 = ?g" by (auto simp: enter_schedule_def)
  let ?ds = "sort_key name (deps_of ?g t)"
  have "extends_in s1 (\<Union>d\<in>set ?ds. below ?g d) s2"
    by (rule schedule_deps_extends[OF _ g1 run(3)[unfolded g1]])
       (rule schedule_extends_g; assumption)
  then obtain mid where t2: "trace s2 = trace s1 @ mid"
    and mid: "event_target ` set mid \<subseteq> (\<Union>d\<in>set ?ds. below ?g d)"
    by (auto simp: extends_in_def)
  have "t \<notin> (\<Union>d\<in>set ?ds. below ?g d)"
    using acyclic_not_below[OF ac] by auto
  with mid submissions_subset[of mid] have tm: "t \<notin> set (submissions mid)" by blast
  from must_run_trace[OF run(4)] have t3: "trace s3 = trace s2" by simp
  from run(2) p1 have ng: "\<not> (sv = Some SUBMITTED \<or> t \<in> pretend_known s)" by simp
  show ?thesis
  proof (cases m)
    case True
    from submit_trace[of s3 t sd] obtain e where
      e: "trace (submit s3 t sd) = trace s3 @ [e]" "is_submission e" "event_target e = t" by blast
    then have "t \<in> set (submissions (mid @ [e]))" by (simp add: submissions_def)
    moreover from e True run(6) t1 t2 t3 have "trace s' = trace s @ Scheduling t # (mid @ [e])"
      by simp
    ultimately show ?thesis using run(1,5) True ng by blast
  next
    case False
    with run(6) t1 t2 t3 have "trace s' = trace s @ Scheduling t # mid" by simp
    with tm show ?thesis using run(1,5) False ng by blast
  qed
qed

text \<open>
  C4, amended: with acyclic dependencies \<open>schedule t\<close> returns or raises.  When it returns,
  it returns true exactly when the test at its head holds (after option normalisation,
  \<open>status t\<close> is \<open>SUBMITTED\<close>, whichever pass wrote that state, or \<open>t\<close> is in the pretend set) or
  \<open>t\<close> is submitted (in a dry run: would be submitted) during the call.  When the test holds
  the call ends there: nothing is recorded after \<open>Scheduling t\<close>, and the scheduler is the one
  \<open>status\<close> left.
\<close>

theorem schedule_true_iff:
  assumes "acyclic (dep_rel (graph s))"
  shows "\<exists>K. \<forall>k\<ge>K. \<exists>r. schedule (Suc k) s t = Some r \<and>
     (\<forall>b s'. r = Inr (b, s') \<longrightarrow>
        (\<exists>sv s1 new. status k (enter_schedule s t) t = Some (Inr (sv, s1))
           \<and> trace s' = trace s @ Scheduling t # new
           \<and> (b \<longleftrightarrow> (sv = Some SUBMITTED \<or> t \<in> pretend_known s) \<or> t \<in> set (submissions new))
           \<and> (sv = Some SUBMITTED \<or> t \<in> pretend_known s \<longrightarrow> new = [] \<and> s' = s1)))"
proof -
  from acyclic_rank[OF assms] obtain rk where rk: "topo rk (graph s)" by (auto simp: topo_def)
  show ?thesis
  proof (intro exI[of _ "Suc (rk t)"] allI impI)
    fix k assume "Suc (rk t) \<le> k"
    then have "rk t < k" by simp
    from schedule_returns[OF rk refl this] obtain r where r: "schedule (Suc k) s t = Some r"
      by blast
    have "\<exists>sv s1 new. status k (enter_schedule s t) t = Some (Inr (sv, s1))
           \<and> trace s' = trace s @ Scheduling t # new
           \<and> (b \<longleftrightarrow> (sv = Some SUBMITTED \<or> t \<in> pretend_known s) \<or> t \<in> set (submissions new))
           \<and> (sv = Some SUBMITTED \<or> t \<in> pretend_known s \<longrightarrow> new = [] \<and> s' = s1)"
      if "r = Inr (b, s')" for b s'
      by (rule schedule_true_iff_run[OF assms]) (use r that in simp)
    with r show "\<exists>r. schedule (Suc k) s t = Some r \<and>
     (\<forall>b s'. r = Inr (b, s') \<longrightarrow>
        (\<exists>sv s1 new. status k (enter_schedule s t) t = Some (Inr (sv, s1))
           \<and> trace s' = trace s @ Scheduling t # new
           \<and> (b \<longleftrightarrow> (sv = Some SUBMITTED \<or> t \<in> pretend_known s) \<or> t \<in> set (submissions new))
           \<and> (sv = Some SUBMITTED \<or> t \<in> pretend_known s \<longrightarrow> new = [] \<and> s' = s1)))"
      by blast
  qed
qed

section \<open>Scenarios: dry run, double submission, a record submitted earlier\<close>

lemma const_upd: "(\<lambda>n. c)(x := c) = (\<lambda>n. c)"
  by auto

lemma chain_fields:
  "name tA = ''A''" "name tB = ''B''" "name tC = ''C''"
  "inputs tA = []" "inputs tB = [''a'']" "inputs tC = [''b'']"
  "outputs tA = [''a'']" "outputs tB = [''b'']" "outputs tC = [''c'']"
  by (simp_all add: tA_def tB_def tC_def)

lemma prepare_empty: "prepare_target_options Map.empty Map.empty = Map.empty"
  by (simp add: prepare_target_options_def fun_eq_iff)

lemma chain_unresolved: "unresolved chain_graph = {}"
  by (simp add: chain_graph_def)

lemma pair_graph_built: "from_targets [tA, tB] = Some (Inr pair_graph)"
  by (simp add: from_targets_def tA_def tB_def pair_graph_def add_to_def Graph_init_def
      check_for_circular_dependencies_def check_for_circular_dependencies_upto_def
      initial_colouring_def deps_of_def lookup_default_def)

lemma single_graph_built: "from_targets [tA] = Some (Inr single_graph)"
  by (simp add: from_targets_def tA_def single_graph_def add_to_def Graph_init_def
      check_for_circular_dependencies_def check_for_circular_dependencies_upto_def
      initial_colouring_def deps_of_def lookup_default_def)

lemma pair_deps: "deps_of pair_graph t = (if t = tB then [tA] else [])"
  by (simp add: deps_of_def lookup_default_def pair_graph_def)

lemma pair_unresolved: "unresolved pair_graph = {}"
  by (simp add: pair_graph_def)

lemma single_deps: "deps_of single_graph t = []"
  by (simp add: deps_of_def lookup_default_def single_graph_def)

lemma single_unresolved: "unresolved single_graph = {}"
  by (simp add: single_graph_def)

lemmas run_simps =
  new_scheduler_def status_def enter_schedule_def chain_targets_distinct chain_fields
  needs_reset_def is_unknown_def is_failed_def is_killed_def is_cancelled_def is_submitted_def
  is_running_def is_completed_def
  const_upd prepare_empty should_run_self_def is_sink_def is_source_def status_of_def
  must_run_def submit_def SHOULDRUN_STATES_def compare_timestamps_def py_max_def py_min_def
  py_gt_def pair_gt_def

lemma chain_dry_first:
  "schedule (Suc (Suc (Suc (Suc 0)))) chain_dry tC = Some (Inr (True,
     chain_dry\<lparr>trace := [Scheduling tC, Scheduling tB, Scheduling tA,
                          WouldSubmit tA, WouldSubmit tB, WouldSubmit tC],
               pretend_known := {tC, tB, tA},
               meta_calls := [Reset ''B'', Reset ''C'', Reset ''B'']\<rparr>))"
  by (simp add: chain_dry_def run_simps chain_deps chain_unresolved)

lemma chain_dry_second:
  "schedule (Suc (Suc (Suc (Suc 0))))
     (chain_dry\<lparr>trace := [Scheduling tC, Scheduling tB, Scheduling tA,
                          WouldSubmit tA, WouldSubmit tB, WouldSubmit tC],
               pretend_known := {tC, tB, tA},
               meta_calls := [Reset ''B'', Reset ''C'', Reset ''B'']\<rparr>) tB
   = Some (Inr (True,
     chain_dry\<lparr>trace := [Scheduling tC, Scheduling tB, Scheduling tA,
                          WouldSubmit tA, WouldSubmit tB, WouldSubmit tC, Scheduling tB],
               pretend_known := {tC, tB, tA},
               meta_calls := [Reset ''B'', Reset ''C'', Reset ''B'', Reset ''B'']\<rparr>))"
  by (simp add: chain_dry_def run_simps chain_deps chain_unresolved)

lemma pair_real_first:
  "schedule (Suc (Suc (Suc 0))) pair_real tB = Some (Inr (True,
     pair_real\<lparr>trace := [Scheduling tB, Scheduling tA, Submit tB {}],
                state_db := (\<lambda>n. Unknown)(''B'' := Submitted),
                meta_calls := [Reset ''B'', Reset ''B'',
                               ResetNoCommit ''B'', SubmittedNoCommit ''B'', Commit ''B'']\<rparr>))"
  by (simp add: pair_real_def run_simps pair_deps pair_unresolved)

lemma pair_real_second:
  "schedule (Suc (Suc (Suc 0)))
     (pair_real\<lparr>trace := [Scheduling tB, Scheduling tA, Submit tB {}],
                state_db := (\<lambda>n. Unknown)(''B'' := Submitted),
                meta_calls := [Reset ''B'', Reset ''B'',
                               ResetNoCommit ''B'', SubmittedNoCommit ''B'', Commit ''B'']\<rparr>) tB
   = Some (Inr (True,
     pair_real\<lparr>trace := [Scheduling tB, Scheduling tA, Submit tB {},
                          Scheduling tB, Scheduling tA, Submit tB {}],
                state_db := (\<lambda>n. Unknown)(''B'' := Submitted),
                meta_calls := [Reset ''B'', Reset ''B'',
                               ResetNoCommit ''B'', SubmittedNoCommit ''B'', Commit ''B'',
                               Reset ''B'', Reset ''B'',
                               ResetNoCommit ''B'', SubmittedNoCommit ''B'', Commit ''B'']\<rparr>))"
  by (simp add: pair_real_def run_simps pair_deps pair_unresolved)

lemma single_submitted_run:
  "schedule (Suc (Suc 0)) single_submitted tA
   = Some (Inr (True, single_submitted\<lparr>trace := [Scheduling tA]\<rparr>))"
  by (simp add: single_submitted_def run_simps single_deps single_unresolved)

lemma four: "4 = Suc (Suc (Suc (Suc 0)))" and three: "3 = Suc (Suc (Suc 0))"
  and two: "2 = Suc (Suc 0)"
  by simp_all

text \<open>
  C9 as stated fails: in scenario S1 run dry, \<open>schedule C\<close> does call a mutator of the
  records.  \<open>status\<close> runs \<open>update_state\<close> whether the run is dry or not, and \<open>update_state\<close>
  calls \<open>reset\<close> on \<open>B\<close> and on \<open>C\<close> because the dependency of each is \<open>Unknown\<close>: starting with
  no mutator called, \<open>schedule C\<close> returns true having called \<open>reset\<close> on \<open>B\<close>, on \<open>C\<close> and on
  \<open>B\<close> again.
\<close>

theorem dry_run_chain_calls_reset:
  "dry_run chain_dry \<and> meta_calls chain_dry = [] \<and> state_db chain_dry = (\<lambda>n. Unknown)
   \<and> schedule 4 chain_dry tC = Some (Inr (True,
       chain_dry\<lparr>trace := [Scheduling tC, Scheduling tB, Scheduling tA,
                            WouldSubmit tA, WouldSubmit tB, WouldSubmit tC],
                 pretend_known := {tC, tB, tA},
                 meta_calls := [Reset ''B'', Reset ''C'', Reset ''B'']\<rparr>))"
  unfolding four
  by (simp del: schedule.simps add: chain_dry_first) (simp add: chain_dry_def new_scheduler_def)

text \<open>
  C9, amended: in scenario S1 run dry, \<open>schedule C\<close> returns true; the mutator calls it makes
  are \<open>reset\<close> on \<open>B\<close>, on \<open>C\<close> and on \<open>B\<close>, each on a record that is \<open>Unknown\<close> already, so
  every record of the state store is left as it was (\<open>Unknown\<close>) and none is marked
  submitted; the pretend set is left \<open>{A, B, C}\<close>.  \<open>schedule B\<close> after it returns true from
  the pretend set: it records \<open>Scheduling B\<close> and nothing else, its \<open>status\<close> calls \<open>reset\<close> on
  \<open>B\<close> once more, and it changes neither the pretend set nor the store.
\<close>

theorem dry_run_chain:
  "\<forall>k\<ge>4. \<exists>s1 s2.
      schedule k chain_dry tC = Some (Inr (True, s1))
    \<and> meta_calls chain_dry = [] \<and> meta_calls s1 = [Reset ''B'', Reset ''C'', Reset ''B'']
    \<and> state_db chain_dry = (\<lambda>n. Unknown) \<and> state_db s1 = (\<lambda>n. Unknown)
    \<and> pretend_known s1 = {tA, tB, tC}
    \<and> trace s1 = [Scheduling tC, Scheduling tB, Scheduling tA,
                    WouldSubmit tA, WouldSubmit tB, WouldSubmit tC]
    \<and> schedule k s1 tB = Some (Inr (True, s2))
    \<and> trace s2 = trace s1 @ [Scheduling tB]
    \<and> meta_calls s2 = meta_calls s1 @ [Reset ''B'']
    \<and> pretend_known s2 = pretend_known s1 \<and> state_db s2 = state_db s1"
proof (intro allI impI)
  fix k :: nat assume k: "4 \<le> k"
  let ?s1 = "chain_dry\<lparr>trace := [Scheduling tC, Scheduling tB, Scheduling tA,
                          WouldSubmit tA, WouldSubmit tB, WouldSubmit tC],
               pretend_known := {tC, tB, tA},
               meta_calls := [Reset ''B'', Reset ''C'', Reset ''B'']\<rparr>"
  let ?s2 = "chain_dry\<lparr>trace := [Scheduling tC, Scheduling tB, Scheduling tA,
                          WouldSubmit tA, WouldSubmit tB, WouldSubmit tC, Scheduling tB],
               pretend_known := {tC, tB, tA},
               meta_calls := [Reset ''B'', Reset ''C'', Reset ''B'', Reset ''B'']\<rparr>"
  have 1: "schedule k chain_dry tC = Some (Inr (True, ?s1))"
    by (rule schedule_mono[OF chain_dry_first]) (use k in \<open>simp add: four\<close>)
  have 2: "schedule k ?s1 tB = Some (Inr (True, ?s2))"
    by (rule schedule_mono[OF chain_dry_second]) (use k in \<open>simp add: four\<close>)
  have 3: "state_db chain_dry = (\<lambda>n. Unknown)" "meta_calls chain_dry = []"
    "trace chain_dry = []"
    by (simp_all add: chain_dry_def new_scheduler_def)
  have 4: "pretend_known ?s1 = {tA, tB, tC}" by auto
  show "\<exists>s1 s2.
      schedule k chain_dry tC = Some (Inr (True, s1))
    \<and> meta_calls chain_dry = [] \<and> meta_calls s1 = [Reset ''B'', Reset ''C'', Reset ''B'']
    \<and> state_db chain_dry = (\<lambda>n. Unknown) \<and> state_db s1 = (\<lambda>n. Unknown)
    \<and> pretend_known s1 = {tA, tB, tC}
    \<and> trace s1 = [Scheduling tC, Scheduling tB, Scheduling tA,
                    WouldSubmit tA, WouldSubmit tB, WouldSubmit tC]
    \<and> schedule k s1 tB = Some (Inr (True, s2))
    \<and> trace s2 = trace s1 @ [Scheduling tB]
    \<and> meta_calls s2 = meta_calls s1 @ [Reset ''B'']
    \<and> pretend_known s2 = pretend_known s1 \<and> state_db s2 = state_db s1"
    by (rule exI[of _ ?s1], rule exI[of _ ?s2]) (use 1 2 3 4 in simp)
qed

theorem dry_run_chain_witness:
  "(4::nat) \<le> 4 \<and> (\<exists>s1 s2.
      schedule 4 chain_dry tC = Some (Inr (True, s1))
    \<and> meta_calls chain_dry = [] \<and> meta_calls s1 = [Reset ''B'', Reset ''C'', Reset ''B'']
    \<and> state_db chain_dry = (\<lambda>n. Unknown) \<and> state_db s1 = (\<lambda>n. Unknown)
    \<and> pretend_known s1 = {tA, tB, tC}
    \<and> trace s1 = [Scheduling tC, Scheduling tB, Scheduling tA,
                    WouldSubmit tA, WouldSubmit tB, WouldSubmit tC]
    \<and> schedule 4 s1 tB = Some (Inr (True, s2))
    \<and> trace s2 = trace s1 @ [Scheduling tB]
    \<and> meta_calls s2 = meta_calls s1 @ [Reset ''B'']
    \<and> pretend_known s2 = pretend_known s1 \<and> state_db s2 = state_db s1)"
  using dry_run_chain[rule_format, of 4] by simp

text \<open>
  C3 fails on the code: \<open>A\<close> is up to date and was never submitted, so its record is
  \<open>Unknown\<close>; \<open>B\<close> is stale.  The first \<open>schedule B\<close> submits \<open>B\<close>.  The second call's
  \<open>update_state\<close> resets \<open>B\<close> because its dependency \<open>A\<close> is \<open>Unknown\<close>, so \<open>status B\<close> is
  \<open>SHOULDRUN\<close> again and \<open>B\<close> goes to the backend a second time.
\<close>

theorem schedule_twice_submits_twice:
  "\<exists>s1 s2.
      schedule 3 pair_real tB = Some (Inr (True, s1))
    \<and> submissions (trace s1) = [tB]
    \<and> schedule 3 s1 tB = Some (Inr (True, s2))
    \<and> trace s2 = trace s1 @ [Scheduling tB, Scheduling tA, Submit tB {}]
    \<and> submissions (trace s2) = [tB, tB]"
  unfolding three
  by (rule exI[of _ "pair_real\<lparr>trace := [Scheduling tB, Scheduling tA, Submit tB {}],
                state_db := (\<lambda>n. Unknown)(''B'' := Submitted),
                meta_calls := [Reset ''B'', Reset ''B'',
                               ResetNoCommit ''B'', SubmittedNoCommit ''B'', Commit ''B'']\<rparr>"],
      rule exI[of _ "pair_real\<lparr>trace := [Scheduling tB, Scheduling tA, Submit tB {},
                          Scheduling tB, Scheduling tA, Submit tB {}],
                state_db := (\<lambda>n. Unknown)(''B'' := Submitted),
                meta_calls := [Reset ''B'', Reset ''B'',
                               ResetNoCommit ''B'', SubmittedNoCommit ''B'', Commit ''B'',
                               Reset ''B'', Reset ''B'',
                               ResetNoCommit ''B'', SubmittedNoCommit ''B'', Commit ''B'']\<rparr>"])
     (simp del: schedule.simps add: pair_real_first pair_real_second)

text \<open>
  C4 as stated fails: a record left \<open>Submitted\<close> by an earlier run makes \<open>schedule\<close> return
  true although the target is submitted neither during the call nor earlier in the pass
  (the trace of the whole pass holds no submission).
\<close>

theorem schedule_true_without_submission:
  "schedule 2 single_submitted tA = Some (Inr (True, single_submitted\<lparr>trace := [Scheduling tA]\<rparr>))
   \<and> trace single_submitted = []
   \<and> tA \<notin> set (submissions (trace (single_submitted\<lparr>trace := [Scheduling tA]\<rparr>)))"
  unfolding two
  by (simp del: schedule.simps add: single_submitted_run)
     (simp add: single_submitted_def new_scheduler_def)

theorem schedule_true_iff_witness:
  "acyclic (dep_rel (graph chain_dry))
   \<and> (\<exists>K. \<forall>k\<ge>K. \<exists>r. schedule (Suc k) chain_dry tC = Some r \<and>
     (\<forall>b s'. r = Inr (b, s') \<longrightarrow>
        (\<exists>sv s1 new. status k (enter_schedule chain_dry tC) tC = Some (Inr (sv, s1))
           \<and> trace s' = trace chain_dry @ Scheduling tC # new
           \<and> (b \<longleftrightarrow> (sv = Some SUBMITTED \<or> tC \<in> pretend_known chain_dry)
                      \<or> tC \<in> set (submissions new))
           \<and> (sv = Some SUBMITTED \<or> tC \<in> pretend_known chain_dry \<longrightarrow> new = [] \<and> s' = s1))))"
proof -
  have h: "acyclic (dep_rel (graph chain_dry))"
    by (simp add: chain_dry_def new_scheduler_def chain_acyclic)
  show ?thesis by (rule conjI[OF h schedule_true_iff[OF h]])
qed

section \<open>The cycle check is correct\<close>

lemma only_finishes_refl [simp]: "only_finishes st st"
  by (simp add: only_finishes_def)

lemma only_finishes_trans:
  "only_finishes st st1 \<Longrightarrow> only_finishes st1 st2 \<Longrightarrow> only_finishes st st2"
  unfolding only_finishes_def by (metis colour.distinct(3) option.inject)

lemma only_finishes_started:
  "only_finishes st st' \<Longrightarrow> st' m = Some Started \<longleftrightarrow> st m = Some Started"
  unfolding only_finishes_def by (metis colour.distinct(1,5) option.inject)

lemma only_finishes_done:
  "only_finishes st st' \<Longrightarrow> st m = Some Done \<Longrightarrow> st' m = Some Done"
  unfolding only_finishes_def by (metis colour.distinct(3) option.inject)

lemma finite_fresh: "finite (dom st) \<Longrightarrow> finite {m. st m = Some Fresh}"
  by (rule finite_subset[of _ "dom st"]) auto

lemma nfresh_mono:
  assumes "only_finishes st st'" "finite (dom st)"
  shows "nfresh st' \<le> nfresh st"
  unfolding nfresh_def
proof (rule card_mono[OF finite_fresh[OF assms(2)]])
  show "{m. st' m = Some Fresh} \<subseteq> {m. st m = Some Fresh}"
    using assms(1) unfolding only_finishes_def by (metis (mono_tags, lifting) Collect_mono)
qed

lemma nfresh_start:
  assumes "st n = Some Fresh" "finite (dom st)"
  shows "nfresh (st(n \<mapsto> Started)) < nfresh st"
proof -
  let ?A = "{m. (st(n \<mapsto> Started)) m = Some Fresh}" and ?B = "{m. st m = Some Fresh}"
  have sub: "?A \<subseteq> ?B" by (auto split: if_splits)
  have "n \<in> ?B" using assms(1) by simp
  moreover have "n \<notin> ?A" by simp
  ultimately have "?A \<noteq> ?B" by metis
  with sub have "?A \<subset> ?B" by (rule psubsetI)
  from psubset_card_mono[OF finite_fresh[OF assms(2)] this] show ?thesis
    by (simp only: nfresh_def)
qed

lemma done_ok_dep:
  "done_ok g st \<Longrightarrow> st n = Some Done \<Longrightarrow> d \<in> set (deps_of g n) \<Longrightarrow> st d = Some Done"
  by (simp add: done_ok_def)

lemma done_ok_no_cycle:
  "done_ok g st \<Longrightarrow> st n = Some Done \<Longrightarrow> (n, n) \<notin> (dep_rel g)\<^sup>+"
  by (simp add: done_ok_def)

lemma done_ok_reach:
  assumes "done_ok g st" "(d, x) \<in> (dep_rel g)\<^sup>*" "st d = Some Done"
  shows "st x = Some Done"
  using assms(2,3)
proof (induction rule: rtrancl_induct)
  case base
  then show ?case by simp
next
  case (step y z)
  then have "st y = Some Done" and "z \<in> set (deps_of g y)" by (simp_all add: dep_rel_def)
  then show ?case by (rule done_ok_dep[OF assms(1)])
qed

lemma done_ok_start:
  assumes "done_ok g st" "st n = Some Fresh"
  shows "done_ok g (st(n \<mapsto> Started))"
  unfolding done_ok_def
proof (intro allI impI)
  fix m assume "(st(n \<mapsto> Started)) m = Some Done"
  then have m: "st m = Some Done" by (simp split: if_splits)
  have "(st(n \<mapsto> Started)) d = Some Done" if "d \<in> set (deps_of g m)" for d
  proof -
    from done_ok_dep[OF assms(1) m that] have "st d = Some Done" .
    with assms(2) have "d \<noteq> n" by auto
    with \<open>st d = Some Done\<close> show ?thesis by simp
  qed
  with done_ok_no_cycle[OF assms(1) m]
  show "(\<forall>d\<in>set (deps_of g m). (st(n \<mapsto> Started)) d = Some Done) \<and> (m, m) \<notin> (dep_rel g)\<^sup>+"
    by simp
qed

lemma done_ok_finish:
  assumes ok: "done_ok g st" and n: "st n = Some Started"
    and deps: "\<forall>d\<in>set (deps_of g n). st d = Some Done"
  shows "done_ok g (st(n \<mapsto> Done))"
proof -
  have cyc: "(n, n) \<notin> (dep_rel g)\<^sup>+"
  proof
    assume "(n, n) \<in> (dep_rel g)\<^sup>+"
    then obtain d where "(n, d) \<in> dep_rel g" "(d, n) \<in> (dep_rel g)\<^sup>*"
      by (meson tranclD)
    with deps have "st d = Some Done" by (simp add: dep_rel_def)
    from done_ok_reach[OF ok \<open>(d, n) \<in> (dep_rel g)\<^sup>*\<close> this] n show False by simp
  qed
  show ?thesis
    unfolding done_ok_def
  proof (intro allI impI)
    fix m assume m: "(st(n \<mapsto> Done)) m = Some Done"
    show "(\<forall>d\<in>set (deps_of g m). (st(n \<mapsto> Done)) d = Some Done) \<and> (m, m) \<notin> (dep_rel g)\<^sup>+"
    proof (cases "m = n")
      case True
      with deps cyc show ?thesis by simp
    next
      case False
      with m have "st m = Some Done" by simp
      with ok have "(\<forall>d\<in>set (deps_of g m). st d = Some Done) \<and> (m, m) \<notin> (dep_rel g)\<^sup>+"
        by (simp add: done_ok_def)
      then show ?thesis by auto
    qed
  qed
qed

lemma visit_deps_spec:
  assumes E: "edges_in_targets g" and V: "visit_spec g K visit"
  shows "\<lbrakk>set ds \<subseteq> set (deps_of g n); n \<in> set (targets g); dom st = set (targets g);
          st n = Some Started; done_ok g st;
          \<forall>m. st m = Some Started \<longrightarrow> (m, n) \<in> (dep_rel g)\<^sup>*\<rbrakk> \<Longrightarrow>
     (nfresh st < K \<longrightarrow> visit_deps visit n ds st \<noteq> None)
     \<and> (\<forall>e. visit_deps visit n ds st = Some (Inl e) \<longrightarrow>
           (\<exists>u. e = CyclicDependencyError u) \<and> \<not> acyclic (dep_rel g))
     \<and> (\<forall>st'. visit_deps visit n ds st = Some (Inr st') \<longrightarrow>
           dom st' = set (targets g) \<and> done_ok g st' \<and> only_finishes st st'
           \<and> (\<forall>d\<in>set ds. st' d = Some Done))"
proof (induction ds arbitrary: st)
  case Nil
  then show ?case by simp
next
  case (Cons d ds)
  let ?N = "set (targets g)" and ?R = "dep_rel g"
  have d_dep: "d \<in> set (deps_of g n)" using Cons.prems(1) by simp
  then have nd: "(n, d) \<in> ?R" by (simp add: dep_rel_def)
  from d_dep E have dN: "d \<in> ?N" by (simp add: edges_in_targets_def)
  with Cons.prems(3) obtain c where c: "st d = Some c" by auto
  have fin: "finite (dom st)" using Cons.prems(3) by simp
  have ds: "set ds \<subseteq> set (deps_of g n)" using Cons.prems(1) by simp
  show ?case
  proof (cases c)
    case Started
    with c Cons.prems(6) have "(d, n) \<in> ?R\<^sup>*" by simp
    with nd have "(n, n) \<in> ?R\<^sup>+" by (rule rtrancl_into_trancl2)
    then have "\<not> acyclic ?R" by (auto simp: acyclic_def)
    with c Started show ?thesis by simp
  next
    case Done
    from Cons.IH[OF ds Cons.prems(2-6)]
    have IH: "(nfresh st < K \<longrightarrow> visit_deps visit n ds st \<noteq> None)
     \<and> (\<forall>e. visit_deps visit n ds st = Some (Inl e) \<longrightarrow>
           (\<exists>u. e = CyclicDependencyError u) \<and> \<not> acyclic ?R)
     \<and> (\<forall>st'. visit_deps visit n ds st = Some (Inr st') \<longrightarrow>
           dom st' = ?N \<and> done_ok g st' \<and> only_finishes st st'
           \<and> (\<forall>d\<in>set ds. st' d = Some Done))" .
    have eq: "visit_deps visit n (d # ds) st = visit_deps visit n ds st"
      using c Done by simp
    have "st' d = Some Done" if "only_finishes st st'" for st'
      using only_finishes_done[OF that] c Done by simp
    with IH show ?thesis unfolding eq by auto
  next
    case Fresh
    have reach: "\<forall>m. st m = Some Started \<longrightarrow> (m, d) \<in> ?R\<^sup>+"
      using Cons.prems(6) nd by (auto intro: rtrancl_into_trancl1)
    from V dN Cons.prems(3,5) c Fresh reach
    have A: "nfresh st < K \<longrightarrow> visit d st \<noteq> None"
      and B: "\<forall>e. visit d st = Some (Inl e) \<longrightarrow>
              (\<exists>u. e = CyclicDependencyError u) \<and> \<not> acyclic ?R"
      and C: "\<forall>st'. visit d st = Some (Inr st') \<longrightarrow>
              dom st' = ?N \<and> done_ok g st' \<and> st' d = Some Done \<and> only_finishes st st'"
      unfolding visit_spec_def by blast+
    show ?thesis
    proof (cases "visit d st")
      case None
      with A c Fresh show ?thesis by simp
    next
      case (Some r)
      show ?thesis
      proof (cases r)
        case (Inl e)
        with B Some c Fresh show ?thesis by simp
      next
        case (Inr st1)
        with C Some have st1: "dom st1 = ?N" "done_ok g st1" "st1 d = Some Done"
          "only_finishes st st1" by simp_all
        have n1: "st1 n = Some Started"
          using only_finishes_started[OF st1(4), of n] Cons.prems(4) by simp
        have g1: "\<forall>m. st1 m = Some Started \<longrightarrow> (m, n) \<in> ?R\<^sup>*"
          using only_finishes_started[OF st1(4)] Cons.prems(6) by simp
        from Cons.IH[OF ds Cons.prems(2) st1(1) n1 st1(2) g1]
        have IH: "(nfresh st1 < K \<longrightarrow> visit_deps visit n ds st1 \<noteq> None)
         \<and> (\<forall>e. visit_deps visit n ds st1 = Some (Inl e) \<longrightarrow>
               (\<exists>u. e = CyclicDependencyError u) \<and> \<not> acyclic ?R)
         \<and> (\<forall>st'. visit_deps visit n ds st1 = Some (Inr st') \<longrightarrow>
               dom st' = ?N \<and> done_ok g st' \<and> only_finishes st1 st'
               \<and> (\<forall>d\<in>set ds. st' d = Some Done))" .
        have eq: "visit_deps visit n (d # ds) st = visit_deps visit n ds st1"
          using c Fresh Some Inr by simp
        have le: "nfresh st1 \<le> nfresh st" by (rule nfresh_mono[OF st1(4) fin])
        have fin': "only_finishes st st' \<and> st' d = Some Done" if "only_finishes st1 st'" for st'
          using only_finishes_trans[OF st1(4) that] only_finishes_done[OF that st1(3)] by simp
        have 1: "nfresh st < K \<longrightarrow> visit_deps visit n ds st1 \<noteq> None"
          using le IH by simp
        have 2: "\<forall>e. visit_deps visit n ds st1 = Some (Inl e) \<longrightarrow>
               (\<exists>u. e = CyclicDependencyError u) \<and> \<not> acyclic ?R"
          using IH by blast
        have 3: "\<forall>st'. visit_deps visit n ds st1 = Some (Inr st') \<longrightarrow>
               dom st' = ?N \<and> done_ok g st' \<and> only_finishes st st'
               \<and> (\<forall>d\<in>set (d # ds). st' d = Some Done)"
        proof (intro allI impI)
          fix st' assume r: "visit_deps visit n ds st1 = Some (Inr st')"
          with IH have "dom st' = ?N" "done_ok g st'" "only_finishes st1 st'"
            "\<forall>d\<in>set ds. st' d = Some Done" by blast+
          with fin'[of st']
          show "dom st' = ?N \<and> done_ok g st' \<and> only_finishes st st'
                \<and> (\<forall>d\<in>set (d # ds). st' d = Some Done)" by simp
        qed
        show ?thesis
          unfolding eq by (intro conjI 1 2 3)
      qed
    qed
  qed
qed

lemma visitor_spec:
  assumes E: "edges_in_targets g"
  shows "visit_spec g k (visitor k g)"
proof (induction k)
  case 0
  show ?case by (simp add: visit_spec_def)
next
  case (Suc k)
  let ?N = "set (targets g)" and ?R = "dep_rel g"
  show ?case
    unfolding visit_spec_def
  proof (intro allI impI)
    fix n st
    assume nN: "n \<in> ?N" and dom: "dom st = ?N" and fresh: "st n = Some Fresh"
      and ok: "done_ok g st" and grey: "\<forall>m. st m = Some Started \<longrightarrow> (m, n) \<in> ?R\<^sup>+"
    let ?st1 = "st(n \<mapsto> Started)"
    have fin: "finite (dom st)" using dom by simp
    have dom1: "dom ?st1 = ?N" using dom nN by auto
    have ok1: "done_ok g ?st1" by (rule done_ok_start[OF ok fresh])
    have grey1: "\<forall>m. ?st1 m = Some Started \<longrightarrow> (m, n) \<in> ?R\<^sup>*"
      using grey by (auto dest: trancl_into_rtrancl)
    have n1: "?st1 n = Some Started" by simp
    have L: "(nfresh ?st1 < k \<longrightarrow> visit_deps (visitor k g) n (deps_of g n) ?st1 \<noteq> None)
     \<and> (\<forall>e. visit_deps (visitor k g) n (deps_of g n) ?st1 = Some (Inl e) \<longrightarrow>
           (\<exists>u. e = CyclicDependencyError u) \<and> \<not> acyclic ?R)
     \<and> (\<forall>st'. visit_deps (visitor k g) n (deps_of g n) ?st1 = Some (Inr st') \<longrightarrow>
           dom st' = ?N \<and> done_ok g st' \<and> only_finishes ?st1 st'
           \<and> (\<forall>d\<in>set (deps_of g n). st' d = Some Done))"
      by (rule visit_deps_spec[OF E Suc.IH subset_refl nN dom1 n1 ok1 grey1])
    have less: "nfresh ?st1 < nfresh st" by (rule nfresh_start[OF fresh fin])
    show "(nfresh st < Suc k \<longrightarrow> visitor (Suc k) g n st \<noteq> None)
        \<and> (\<forall>e. visitor (Suc k) g n st = Some (Inl e) \<longrightarrow>
              (\<exists>u. e = CyclicDependencyError u) \<and> \<not> acyclic ?R)
        \<and> (\<forall>st'. visitor (Suc k) g n st = Some (Inr st') \<longrightarrow>
              dom st' = ?N \<and> done_ok g st' \<and> st' n = Some Done \<and> only_finishes st st')"
    proof (cases "visit_deps (visitor k g) n (deps_of g n) ?st1")
      case None
      with L less show ?thesis by auto
    next
      case (Some r)
      show ?thesis
      proof (cases r)
        case (Inl e)
        with L Some show ?thesis by simp
      next
        case (Inr st')
        with L Some have st': "dom st' = ?N" "done_ok g st'" "only_finishes ?st1 st'"
          "\<forall>d\<in>set (deps_of g n). st' d = Some Done" by simp_all
        have n': "st' n = Some Started"
          using only_finishes_started[OF st'(3), of n] by simp
        have res: "visitor (Suc k) g n st = Some (Inr (st'(n \<mapsto> Done)))"
          using Some Inr by simp
        have d2: "dom (st'(n \<mapsto> Done)) = ?N" using st'(1) nN by auto
        have ok2: "done_ok g (st'(n \<mapsto> Done))"
          by (rule done_ok_finish[OF st'(2) n' st'(4)])
        have of2: "only_finishes st (st'(n \<mapsto> Done))"
          unfolding only_finishes_def
        proof (intro conjI allI impI)
          fix m assume m: "st m \<noteq> Some Fresh"
          with fresh have mn: "m \<noteq> n" by auto
          with m have "?st1 m \<noteq> Some Fresh" by simp
          with st'(3) have "st' m = ?st1 m" by (simp add: only_finishes_def)
          with mn show "(st'(n \<mapsto> Done)) m = st m" by simp
        next
          fix m assume m: "st m = Some Fresh"
          show "(st'(n \<mapsto> Done)) m = Some Fresh \<or> (st'(n \<mapsto> Done)) m = Some Done"
          proof (cases "m = n")
            case True
            then show ?thesis by simp
          next
            case False
            with m have "?st1 m = Some Fresh" by simp
            with st'(3) have "st' m = Some Fresh \<or> st' m = Some Done"
              by (simp add: only_finishes_def)
            with False show ?thesis by simp
          qed
        qed
        from res d2 ok2 of2 show ?thesis by simp
      qed
    qed
  qed
qed

lemma visit_nodes_spec:
  assumes V: "visit_spec g K visit"
  shows "\<lbrakk>set ns \<subseteq> set (targets g); dom st = set (targets g); done_ok g st;
          \<forall>m. st m \<noteq> Some Started\<rbrakk> \<Longrightarrow>
     (nfresh st < K \<longrightarrow> visit_nodes visit ns st \<noteq> None)
     \<and> (\<forall>e. visit_nodes visit ns st = Some (Inl e) \<longrightarrow>
           (\<exists>u. e = CyclicDependencyError u) \<and> \<not> acyclic (dep_rel g))
     \<and> (\<forall>st'. visit_nodes visit ns st = Some (Inr st') \<longrightarrow>
           dom st' = set (targets g) \<and> done_ok g st' \<and> only_finishes st st'
           \<and> (\<forall>n\<in>set ns. st' n = Some Done))"
proof (induction ns arbitrary: st)
  case Nil
  then show ?case by simp
next
  case (Cons n ns)
  let ?N = "set (targets g)" and ?R = "dep_rel g"
  have nN: "n \<in> ?N" and ns: "set ns \<subseteq> ?N" using Cons.prems(1) by simp_all
  with Cons.prems(2) obtain c where c: "st n = Some c" by auto
  have fin: "finite (dom st)" using Cons.prems(2) by simp
  show ?case
  proof (cases "c = Fresh")
    case False
    from Cons.IH[OF ns Cons.prems(2-4)]
    have IH: "(nfresh st < K \<longrightarrow> visit_nodes visit ns st \<noteq> None)
     \<and> (\<forall>e. visit_nodes visit ns st = Some (Inl e) \<longrightarrow>
           (\<exists>u. e = CyclicDependencyError u) \<and> \<not> acyclic ?R)
     \<and> (\<forall>st'. visit_nodes visit ns st = Some (Inr st') \<longrightarrow>
           dom st' = ?N \<and> done_ok g st' \<and> only_finishes st st'
           \<and> (\<forall>n\<in>set ns. st' n = Some Done))" .
    from False c Cons.prems(4) have cd: "st n = Some Done" by (cases c) auto
    then have eq: "visit_nodes visit (n # ns) st = visit_nodes visit ns st" by simp
    have "st' n = Some Done" if "only_finishes st st'" for st'
      by (rule only_finishes_done[OF that cd])
    with IH show ?thesis unfolding eq by auto
  next
    case True
    with c have fresh: "st n = Some Fresh" by simp
    from V nN Cons.prems(2,3,4) fresh
    have A: "nfresh st < K \<longrightarrow> visit n st \<noteq> None"
      and B: "\<forall>e. visit n st = Some (Inl e) \<longrightarrow>
              (\<exists>u. e = CyclicDependencyError u) \<and> \<not> acyclic ?R"
      and C: "\<forall>st'. visit n st = Some (Inr st') \<longrightarrow>
              dom st' = ?N \<and> done_ok g st' \<and> st' n = Some Done \<and> only_finishes st st'"
      unfolding visit_spec_def by blast+
    show ?thesis
    proof (cases "visit n st")
      case None
      with A fresh show ?thesis by simp
    next
      case (Some r)
      show ?thesis
      proof (cases r)
        case (Inl e)
        with B Some fresh show ?thesis by simp
      next
        case (Inr st1)
        with C Some have st1: "dom st1 = ?N" "done_ok g st1" "st1 n = Some Done"
          "only_finishes st st1" by simp_all
        have g1: "\<forall>m. st1 m \<noteq> Some Started"
          using only_finishes_started[OF st1(4)] Cons.prems(4) by simp
        from Cons.IH[OF ns st1(1,2) g1]
        have IH: "(nfresh st1 < K \<longrightarrow> visit_nodes visit ns st1 \<noteq> None)
         \<and> (\<forall>e. visit_nodes visit ns st1 = Some (Inl e) \<longrightarrow>
               (\<exists>u. e = CyclicDependencyError u) \<and> \<not> acyclic ?R)
         \<and> (\<forall>st'. visit_nodes visit ns st1 = Some (Inr st') \<longrightarrow>
               dom st' = ?N \<and> done_ok g st' \<and> only_finishes st1 st'
               \<and> (\<forall>n\<in>set ns. st' n = Some Done))" .
        have eq: "visit_nodes visit (n # ns) st = visit_nodes visit ns st1"
          using fresh Some Inr by simp
        have le: "nfresh st1 \<le> nfresh st" by (rule nfresh_mono[OF st1(4) fin])
        have fin': "only_finishes st st' \<and> st' n = Some Done" if "only_finishes st1 st'" for st'
          using only_finishes_trans[OF st1(4) that] only_finishes_done[OF that st1(3)] by simp
        have 1: "nfresh st < K \<longrightarrow> visit_nodes visit ns st1 \<noteq> None"
          using le IH by simp
        have 2: "\<forall>e. visit_nodes visit ns st1 = Some (Inl e) \<longrightarrow>
               (\<exists>u. e = CyclicDependencyError u) \<and> \<not> acyclic ?R"
          using IH by blast
        have 3: "\<forall>st'. visit_nodes visit ns st1 = Some (Inr st') \<longrightarrow>
               dom st' = ?N \<and> done_ok g st' \<and> only_finishes st st'
               \<and> (\<forall>n\<in>set (n # ns). st' n = Some Done)"
        proof (intro allI impI)
          fix st' assume r: "visit_nodes visit ns st1 = Some (Inr st')"
          with IH have "dom st' = ?N" "done_ok g st'" "only_finishes st1 st'"
            "\<forall>n\<in>set ns. st' n = Some Done" by blast+
          with fin'[of st']
          show "dom st' = ?N \<and> done_ok g st' \<and> only_finishes st st'
                \<and> (\<forall>n\<in>set (n # ns). st' n = Some Done)" by simp
        qed
        show ?thesis
          unfolding eq by (intro conjI 1 2 3)
      qed
    qed
  qed
qed

lemma initial_colouring_apply:
  "initial_colouring ns n = (if n \<in> set ns then Some Fresh else None)"
  unfolding initial_colouring_def by (induction ns) auto

lemma nfresh_initial: "nfresh (initial_colouring ns) \<le> length ns"
proof -
  have "{m. initial_colouring ns m = Some Fresh} = set ns"
    by (auto simp: initial_colouring_apply)
  then show ?thesis by (simp add: nfresh_def card_length)
qed

lemma check_spec:
  assumes E: "edges_in_targets g"
  shows "(\<exists>u. check_for_circular_dependencies g = Some (Inl (CyclicDependencyError u))
               \<and> \<not> acyclic (dep_rel g))
       \<or> (check_for_circular_dependencies g = Some (Inr ()) \<and> acyclic (dep_rel g))"
proof -
  let ?N = "set (targets g)" and ?R = "dep_rel g" and ?K = "Suc (length (targets g))"
  let ?st = "initial_colouring (targets g)"
  let ?res = "visit_nodes (visitor ?K g) (targets g) ?st"
  have dom: "dom ?st = ?N" by (auto simp: initial_colouring_apply dom_def)
  have ok: "done_ok g ?st" by (simp add: done_ok_def initial_colouring_apply)
  have ns: "\<forall>m. ?st m \<noteq> Some Started" by (simp add: initial_colouring_apply)
  have few: "nfresh ?st < ?K" using nfresh_initial[of "targets g"] by simp
  from visit_nodes_spec[OF visitor_spec[OF E] subset_refl dom ok ns] few
  have A: "?res \<noteq> None"
    and B: "\<forall>e. ?res = Some (Inl e) \<longrightarrow> (\<exists>u. e = CyclicDependencyError u) \<and> \<not> acyclic ?R"
    and C: "\<forall>st'. ?res = Some (Inr st') \<longrightarrow> done_ok g st' \<and> (\<forall>n\<in>?N. st' n = Some Done)"
    by blast+
  from A obtain r where r: "?res = Some r" by blast
  show ?thesis
  proof (cases r)
    case (Inl e)
    with B r obtain u where "e = CyclicDependencyError u" "\<not> acyclic ?R" by blast
    with r Inl show ?thesis
      by (simp add: check_for_circular_dependencies_def check_for_circular_dependencies_upto_def)
  next
    case (Inr st')
    with C r have ok': "done_ok g st'" and all: "\<forall>n\<in>?N. st' n = Some Done" by blast+
    have "(x, x) \<notin> ?R\<^sup>+" for x
    proof
      assume x: "(x, x) \<in> ?R\<^sup>+"
      then obtain y where "(x, y) \<in> ?R" by (meson tranclD)
      with E have "x \<in> ?N" by (simp add: dep_rel_def edges_in_targets_def)
      with all have "st' x = Some Done" by simp
      from done_ok_no_cycle[OF ok' this] x show False by simp
    qed
    then have "acyclic ?R" by (simp add: acyclic_def)
    with r Inr show ?thesis
      by (simp add: check_for_circular_dependencies_def check_for_circular_dependencies_upto_def)
  qed
qed

section \<open>Construction from targets and cycles\<close>

lemma from_targets_assemble:
  "from_targets ts =
     (case build_provides ts [] of
        Inl e \<Rightarrow> Some (Inl e)
      | Inr prov \<Rightarrow> Graph_init (assemble ts prov))"
  by (simp add: from_targets_def assemble_def split: sum.splits prod.splits)

lemma add_outputs_map:
  "add_outputs t ps prov = Inr prov' \<Longrightarrow>
   map_of prov' p = (case map_of prov p of Some u \<Rightarrow> Some u
                     | None \<Rightarrow> if p \<in> set ps then Some t else None)"
proof (induction ps arbitrary: prov)
  case Nil
  then show ?case by (simp split: option.splits)
next
  case (Cons q ps)
  from Cons.prems have q: "map_of prov q = None"
    and r: "add_outputs t ps (prov @ [(q, t)]) = Inr prov'"
    by (simp_all split: option.splits)
  from Cons.IH[OF r] q show ?case
    by (auto simp: map_add_def split: option.splits)
qed

lemma add_outputs_fresh:
  "add_outputs t ps prov = Inr prov' \<Longrightarrow> p \<in> set ps \<Longrightarrow> map_of prov p = None"
proof (induction ps arbitrary: prov)
  case Nil
  then show ?case by simp
next
  case (Cons q ps)
  from Cons.prems(1) have q: "map_of prov q = None"
    and r: "add_outputs t ps (prov @ [(q, t)]) = Inr prov'"
    by (simp_all split: option.splits)
  show ?case
  proof (cases "p = q")
    case True
    with q show ?thesis by simp
  next
    case False
    with Cons.prems(2) have "p \<in> set ps" by simp
    from Cons.IH[OF r this] show ?thesis
      by (auto simp: map_add_def split: option.splits)
  qed
qed

lemma build_provides_fresh:
  "build_provides ts prov = Inr prov' \<Longrightarrow> u \<in> set ts \<Longrightarrow> p \<in> set (outputs u)
     \<Longrightarrow> map_of prov p = None"
proof (induction ts arbitrary: prov)
  case Nil
  then show ?case by simp
next
  case (Cons t ts)
  from Cons.prems(1) obtain prov1 where a: "add_outputs t (outputs t) prov = Inr prov1"
    and r: "build_provides ts prov1 = Inr prov'"
    by (auto split: sum.splits)
  show ?case
  proof (cases "u = t")
    case True
    with add_outputs_fresh[OF a] Cons.prems(3) show ?thesis by simp
  next
    case False
    with Cons.prems(2) have "u \<in> set ts" by simp
    from Cons.IH[OF r this Cons.prems(3)] have "map_of prov1 p = None" .
    with add_outputs_map[OF a, of p] show ?thesis by (auto split: option.splits)
  qed
qed

lemma build_provides_map:
  "build_provides ts prov = Inr prov' \<Longrightarrow>
   map_of prov' p = Some u \<longleftrightarrow>
     map_of prov p = Some u \<or> (map_of prov p = None \<and> u \<in> set ts \<and> p \<in> set (outputs u))"
proof (induction ts arbitrary: prov)
  case Nil
  then show ?case by auto
next
  case (Cons t ts)
  from Cons.prems obtain prov1 where a: "add_outputs t (outputs t) prov = Inr prov1"
    and r: "build_provides ts prov1 = Inr prov'"
    by (auto split: sum.splits)
  note IH = Cons.IH[OF r]
  note m1 = add_outputs_map[OF a, of p]
  note fr = build_provides_fresh[OF r, of _ p]
  show ?case
  proof (cases "map_of prov p")
    case (Some v)
    with m1 have "map_of prov1 p = Some v" by simp
    with IH Some show ?thesis by simp
  next
    case None
    show ?thesis
    proof (cases "p \<in> set (outputs t)")
      case True
      with m1 None have p1: "map_of prov1 p = Some t" by simp
      have "w \<notin> set ts" if "p \<in> set (outputs w)" for w
        using fr[of w] that p1 by auto
      with IH p1 None True show ?thesis by auto
    next
      case False
      with m1 None have "map_of prov1 p = None" by simp
      with IH None False show ?thesis by auto
    qed
  qed
qed

lemma lookup_default_add_to:
  "set (lookup_default (add_to d k v) k') =
     (if k' = k then insert v (set (lookup_default d k)) else set (lookup_default d k'))"
  by (auto simp: lookup_default_def add_to_def update_conv' map_add_def split: option.splits)

lemma scan_inputs_spec:
  "scan_inputs prov t ps (deps, unres) = (deps', unres') \<Longrightarrow>
     set (lookup_default deps' k) =
       (if k = t then set (lookup_default deps t) \<union> {u. \<exists>p\<in>set ps. map_of prov p = Some u}
        else set (lookup_default deps k))
   \<and> unres' = unres \<union> {p \<in> set ps. map_of prov p = None}"
proof (induction ps arbitrary: deps unres)
  case Nil
  then show ?case by simp
next
  case (Cons q ps)
  show ?case
  proof (cases "map_of prov q")
    case None
    with Cons.prems have "scan_inputs prov t ps (deps, insert q unres) = (deps', unres')" by simp
    from Cons.IH[OF this] None show ?thesis by auto
  next
    case (Some u)
    with Cons.prems have "scan_inputs prov t ps (add_to deps t u, unres) = (deps', unres')" by simp
    from Cons.IH[OF this] Some show ?thesis by (auto simp: lookup_default_add_to)
  qed
qed

lemma build_dependencies_spec:
  "build_dependencies prov ts (deps, unres) = (deps', unres') \<Longrightarrow>
     set (lookup_default deps' k) =
       set (lookup_default deps k)
       \<union> (if k \<in> set ts then {u. \<exists>p\<in>set (inputs k). map_of prov p = Some u} else {})
   \<and> unres' = unres \<union> {p. \<exists>t\<in>set ts. p \<in> set (inputs t) \<and> map_of prov p = None}"
proof (induction ts arbitrary: deps unres)
  case Nil
  then show ?case by simp
next
  case (Cons t ts)
  obtain deps1 unres1 where s: "scan_inputs prov t (inputs t) (deps, unres) = (deps1, unres1)"
    by (cases "scan_inputs prov t (inputs t) (deps, unres)")
  with Cons.prems have r: "build_dependencies prov ts (deps1, unres1) = (deps', unres')" by simp
  from Cons.IH[OF r] scan_inputs_spec[OF s, of k] show ?case by auto
qed

lemma assemble_fields:
  "targets (assemble ts prov) = ts"
  "provides (assemble ts prov) = prov"
  "set (deps_of (assemble ts prov) t) =
     (if t \<in> set ts then {u. \<exists>p\<in>set (inputs t). map_of prov p = Some u} else {})"
  "unresolved (assemble ts prov) = {p. \<exists>t\<in>set ts. p \<in> set (inputs t) \<and> map_of prov p = None}"
proof -
  obtain deps unres where b: "build_dependencies prov ts ([], {}) = (deps, unres)"
    by (cases "build_dependencies prov ts ([], {})")
  from build_dependencies_spec[OF b, of t]
  show "targets (assemble ts prov) = ts" "provides (assemble ts prov) = prov"
    "set (deps_of (assemble ts prov) t) =
       (if t \<in> set ts then {u. \<exists>p\<in>set (inputs t). map_of prov p = Some u} else {})"
    "unresolved (assemble ts prov) = {p. \<exists>t\<in>set ts. p \<in> set (inputs t) \<and> map_of prov p = None}"
    by (simp_all add: assemble_def b deps_of_def lookup_default_def)
qed

lemma assemble_dep_rel:
  assumes "build_provides ts [] = Inr prov"
  shows "dep_rel (assemble ts prov) = consumes ts"
proof -
  have m: "map_of prov p = Some u \<longleftrightarrow> u \<in> set ts \<and> p \<in> set (outputs u)" for p u
    using build_provides_map[OF assms, of p u] by simp
  have "d \<in> set (deps_of (assemble ts prov) t)
      \<longleftrightarrow> t \<in> set ts \<and> d \<in> set ts \<and> set (inputs t) \<inter> set (outputs d) \<noteq> {}" for t d
    by (auto simp: assemble_fields m)
  then show ?thesis
    unfolding dep_rel_def consumes_def by simp
qed

lemma assemble_edges:
  assumes "build_provides ts [] = Inr prov"
  shows "edges_in_targets (assemble ts prov)"
proof -
  have "dep_rel (assemble ts prov) = consumes ts" by (rule assemble_dep_rel[OF assms])
  then have "(t, d) \<in> consumes ts" if "d \<in> set (deps_of (assemble ts prov) t)" for t d
    using that by (auto simp: dep_rel_def)
  then show ?thesis
    unfolding edges_in_targets_def by (auto simp: consumes_def assemble_fields(1))
qed

lemma Graph_init_spec:
  assumes "edges_in_targets g"
  shows "(\<exists>u. Graph_init g = Some (Inl (CyclicDependencyError u)) \<and> \<not> acyclic (dep_rel g))
       \<or> (Graph_init g = Some (Inr g) \<and> acyclic (dep_rel g))"
  using check_spec[OF assms] by (auto simp: Graph_init_def)

lemma self_edge_cycle: "t \<in> set (deps_of g t) \<Longrightarrow> \<not> acyclic (dep_rel g)"
  by (auto simp: acyclic_def dep_rel_def)

lemma consumes_self_cycle:
  "t \<in> set ts \<Longrightarrow> set (inputs t) \<inter> set (outputs t) \<noteq> {} \<Longrightarrow> \<not> acyclic (consumes ts)"
proof -
  assume "t \<in> set ts" "set (inputs t) \<inter> set (outputs t) \<noteq> {}"
  then have "(t, t) \<in> consumes ts" by (simp add: consumes_def)
  then have "(t, t) \<in> (consumes ts)\<^sup>+" by (rule r_into_trancl)
  then show ?thesis by (auto simp: acyclic_def)
qed

text \<open>
  C7: for a graph whose dependencies join targets of the graph, \<open>Graph.__init__\<close> raises the
  cyclic-dependency error exactly when the dependencies contain a cycle, and returns the
  graph when they are acyclic; a target that depends on itself is a cycle.  Likewise
  \<open>from_targets\<close>, once no file has two providers: it raises the error exactly when some
  chain of targets, each consuming a file the next produces, closes; it returns a graph
  with these dependencies otherwise; a target that consumes a file it produces is a cycle.
\<close>

theorem cyclic_dependency_error_iff:
  "(edges_in_targets g \<longrightarrow>
      ((\<exists>u. Graph_init g = Some (Inl (CyclicDependencyError u))) \<longleftrightarrow> \<not> acyclic (dep_rel g))
    \<and> (acyclic (dep_rel g) \<longrightarrow> Graph_init g = Some (Inr g))
    \<and> (\<forall>t. t \<in> set (deps_of g t) \<longrightarrow>
          (\<exists>u. Graph_init g = Some (Inl (CyclicDependencyError u)))))
   \<and> (\<forall>prov. build_provides ts [] = Inr prov \<longrightarrow>
      ((\<exists>u. from_targets ts = Some (Inl (CyclicDependencyError u))) \<longleftrightarrow> \<not> acyclic (consumes ts))
    \<and> (acyclic (consumes ts) \<longrightarrow>
          (\<exists>g'. from_targets ts = Some (Inr g') \<and> targets g' = ts \<and> dep_rel g' = consumes ts))
    \<and> (\<forall>t\<in>set ts. set (inputs t) \<inter> set (outputs t) \<noteq> {} \<longrightarrow>
          (\<exists>u. from_targets ts = Some (Inl (CyclicDependencyError u)))))"
proof -
  have 1: "((\<exists>u. Graph_init g = Some (Inl (CyclicDependencyError u))) \<longleftrightarrow> \<not> acyclic (dep_rel g))
    \<and> (acyclic (dep_rel g) \<longrightarrow> Graph_init g = Some (Inr g))
    \<and> (\<forall>t. t \<in> set (deps_of g t) \<longrightarrow>
          (\<exists>u. Graph_init g = Some (Inl (CyclicDependencyError u))))"
    if E: "edges_in_targets g"
  proof -
    note S = Graph_init_spec[OF E]
    from S have a: "(\<exists>u. Graph_init g = Some (Inl (CyclicDependencyError u))) \<longleftrightarrow> \<not> acyclic (dep_rel g)"
      by auto
    from S have b: "acyclic (dep_rel g) \<longrightarrow> Graph_init g = Some (Inr g)" by auto
    have c: "\<exists>u. Graph_init g = Some (Inl (CyclicDependencyError u))" if "t \<in> set (deps_of g t)" for t
      using self_edge_cycle[OF that] S by auto
    from a b c show ?thesis by blast
  qed
  have 2: "((\<exists>u. from_targets ts = Some (Inl (CyclicDependencyError u))) \<longleftrightarrow> \<not> acyclic (consumes ts))
    \<and> (acyclic (consumes ts) \<longrightarrow>
          (\<exists>g'. from_targets ts = Some (Inr g') \<and> targets g' = ts \<and> dep_rel g' = consumes ts))
    \<and> (\<forall>t\<in>set ts. set (inputs t) \<inter> set (outputs t) \<noteq> {} \<longrightarrow>
          (\<exists>u. from_targets ts = Some (Inl (CyclicDependencyError u))))"
    if P: "build_provides ts [] = Inr prov" for prov
  proof -
    let ?g = "assemble ts prov"
    have f: "from_targets ts = Graph_init ?g" by (simp add: from_targets_assemble P)
    have r: "dep_rel ?g = consumes ts" by (rule assemble_dep_rel[OF P])
    from Graph_init_spec[OF assemble_edges[OF P]]
    have S: "(\<exists>u. from_targets ts = Some (Inl (CyclicDependencyError u)) \<and> \<not> acyclic (consumes ts))
       \<or> (from_targets ts = Some (Inr ?g) \<and> acyclic (consumes ts))"
      by (simp only: r f)
    from S have a: "(\<exists>u. from_targets ts = Some (Inl (CyclicDependencyError u))) \<longleftrightarrow> \<not> acyclic (consumes ts)"
      by auto
    have b: "\<exists>g'. from_targets ts = Some (Inr g') \<and> targets g' = ts \<and> dep_rel g' = consumes ts"
      if "acyclic (consumes ts)"
    proof -
      from that S have "from_targets ts = Some (Inr ?g)" by auto
      with r show ?thesis by (auto simp: assemble_fields(1))
    qed
    have c: "\<exists>u. from_targets ts = Some (Inl (CyclicDependencyError u))"
      if "t \<in> set ts" "set (inputs t) \<inter> set (outputs t) \<noteq> {}" for t
      using consumes_self_cycle[OF that] S by auto
    from a b c show ?thesis by blast
  qed
  from 1 2 show ?thesis by blast
qed

lemma chain_edges: "edges_in_targets chain_graph"
  by (auto simp: edges_in_targets_def chain_deps chain_targets split: if_splits)

lemma cycle_targets: "from_targets [tP, tQ] = Some (Inl (CyclicDependencyError tQ))"
  by (simp add: from_targets_def tP_def tQ_def add_to_def Graph_init_def
      check_for_circular_dependencies_def check_for_circular_dependencies_upto_def
      initial_colouring_def deps_of_def lookup_default_def)

theorem cyclic_dependency_error_iff_witness:
  "edges_in_targets chain_graph \<and> acyclic (dep_rel chain_graph)
   \<and> Graph_init chain_graph = Some (Inr chain_graph)
   \<and> build_provides [tP, tQ] [] = Inr [(''p'', tP), (''q'', tQ)]
   \<and> from_targets [tP, tQ] = Some (Inl (CyclicDependencyError tQ))
   \<and> \<not> acyclic (consumes [tP, tQ])"
proof -
  have p: "build_provides [tP, tQ] [] = Inr [(''p'', tP), (''q'', tQ)]"
    by (simp add: tP_def tQ_def)
  from cyclic_dependency_error_iff[of chain_graph "[tP, tQ]"] chain_edges chain_acyclic p
    cycle_targets
  show ?thesis by auto
qed

lemma from_targets_valid:
  assumes "from_targets ts = Some (Inr g)"
  shows "targets g = ts" and "acyclic (dep_rel g)" and "edges_in_targets g"
    and "dep_rel g = consumes ts"
    and "\<forall>t\<in>set ts. \<forall>p\<in>set (inputs t).
           p \<in> unresolved g \<or> (\<exists>d\<in>set (deps_of g t). p \<in> set (outputs d))"
proof -
  from assms obtain prov where P: "build_provides ts [] = Inr prov"
    by (auto simp: from_targets_assemble split: sum.splits)
  let ?g = "assemble ts prov"
  from assms P have f: "Graph_init ?g = Some (Inr g)" by (simp add: from_targets_assemble)
  then have g: "g = ?g" by (auto simp: Graph_init_def split: option.splits sum.splits)
  have E: "edges_in_targets ?g" by (rule assemble_edges[OF P])
  from Graph_init_spec[OF E] f have ac: "acyclic (dep_rel ?g)" by auto
  have m: "map_of prov p = Some u \<longleftrightarrow> u \<in> set ts \<and> p \<in> set (outputs u)" for p u
    using build_provides_map[OF P, of p u] by simp
  show "targets g = ts" by (simp add: g assemble_fields)
  show "acyclic (dep_rel g)" using ac by (simp add: g)
  show "edges_in_targets g" using E by (simp add: g)
  show "dep_rel g = consumes ts" by (simp add: g assemble_dep_rel[OF P])
  show "\<forall>t\<in>set ts. \<forall>p\<in>set (inputs t).
           p \<in> unresolved g \<or> (\<exists>d\<in>set (deps_of g t). p \<in> set (outputs d))"
  proof (intro ballI)
    fix t p assume t: "t \<in> set ts" and p: "p \<in> set (inputs t)"
    show "p \<in> unresolved g \<or> (\<exists>d\<in>set (deps_of g t). p \<in> set (outputs d))"
    proof (cases "map_of prov p")
      case None
      with t p show ?thesis by (auto simp: g assemble_fields)
    next
      case (Some u)
      with m have "p \<in> set (outputs u)" by simp
      moreover from Some t p have "u \<in> set (deps_of g t)" by (auto simp: g assemble_fields)
      ultimately show ?thesis by blast
    qed
  qed
qed

lemma from_targets_valid_graph:
  assumes "from_targets ts = Some (Inr g)" "distinct (map name ts)"
  shows "valid_graph g"
  using from_targets_valid[OF assms(1)] assms(2)
  by (auto simp: valid_graph_def dep_closed_def edges_in_targets_def)

end
